theory Spec2Isabelle
  imports
    Complex_Main
    "HOL-Library.AList"
    "HOL-Library.Multiset"
    "HOL-Library.Char_ord"
    "HOL-Library.List_Lexorder"
begin

section \<open>Python values and errors\<close>

text \<open>
  The values a feature extractor returns are Python strings, integers and booleans. A
  Python \<open>bool\<close> is an \<open>int\<close> (\<open>True == 1\<close>, same hash), so booleans are embedded
  in \<open>PInt\<close> through \<open>PBool\<close>. \<open>sorted\<close> compares strings by code point
  (the lexicographic order on byte lists for the ASCII names used here) and
  integers numerically. Python raises \<open>TypeError\<close> when it has to compare a string with an
  integer, which \<open>sorted_py\<close> below models; the order on \<open>pyval\<close> places integers
  before strings only to make the order total, and is never consulted on such a pair.
\<close>

datatype pyval = is_PInt: PInt int | is_PStr: PStr string

definition PBool :: "bool \<Rightarrow> pyval" where
  "PBool b = PInt (if b then 1 else 0)"

instantiation pyval :: linorder
begin

fun less_eq_pyval :: "pyval \<Rightarrow> pyval \<Rightarrow> bool" where
  "less_eq_pyval (PInt a) (PInt b) = (a \<le> b)"
| "less_eq_pyval (PInt a) (PStr t) = True"
| "less_eq_pyval (PStr s) (PInt b) = False"
| "less_eq_pyval (PStr s) (PStr t) = (s \<le> t)"

definition less_pyval :: "pyval \<Rightarrow> pyval \<Rightarrow> bool" where
  "less_pyval x y = (x \<le> y \<and> \<not> y \<le> x)"

instance
proof
  fix x y z :: pyval
  show "(x < y) = (x \<le> y \<and> \<not> y \<le> x)"
    by (simp add: less_pyval_def)
  show "x \<le> x"
    by (cases x) simp_all
  show "x \<le> y \<Longrightarrow> y \<le> z \<Longrightarrow> x \<le> z"
    by (cases x; cases y; cases z) auto
  show "x \<le> y \<Longrightarrow> y \<le> x \<Longrightarrow> x = y"
    by (cases x; cases y) auto
  show "x \<le> y \<or> y \<le> x"
    by (cases x; cases y) auto
qed

end

datatype error =
    AttributeError string
  | IndexError
  | TypeError
  | InvalidArgumentError

text \<open>
  \<open>sorted(list(s))\<close> on a set of values. Sorting two or more values has to compare every
  value with some other one, so it raises \<open>TypeError\<close> exactly when the set holds both a
  string and an integer (a boolean is an integer); otherwise it returns the values in
  increasing order.
\<close>

definition sorted_py :: "pyval set \<Rightarrow> error + pyval list" where
  "sorted_py s =
     (if (\<exists>a \<in> s. \<exists>b \<in> s. is_PInt a \<and> is_PStr b) then Inl TypeError
      else Inr (sorted_list_of_set s))"

section \<open>Featurizer\<close>

text \<open>
  \<open>Featurizer.__init__\<close> walks the items of \<open>allowable_sets\<close> in insertion order. The
  dictionaries \<open>allowable_sets\<close> and \<open>features_mapping\<close> are association lists in
  insertion order; the assignment \<open>features_mapping[k] = ...\<close> is \<open>AList.update\<close>
  (replace in place, or append). The inner dictionary
  \<open>dict(zip(s, range(dim, len(s) + dim)))\<close> is only ever looked up, so it is a map.
  The constructor raises what \<open>sorted\<close> raises.
\<close>

record 'v Featurizer =
  dim :: nat
  features_mapping :: "(string \<times> ('v \<rightharpoonup> nat)) list"

fun Featurizer_init_loop ::
  "(string \<times> pyval set) list \<Rightarrow> pyval Featurizer \<Rightarrow> error + pyval Featurizer" where
  "Featurizer_init_loop [] self = Inr self"
| "Featurizer_init_loop ((k, s) # rest) self =
     (case sorted_py s of
        Inl e \<Rightarrow> Inl e
      | Inr s' \<Rightarrow>
          (let self1 = self\<lparr>features_mapping :=
                         AList.update k (map_of (zip s' [dim self ..< length s' + dim self]))
                           (features_mapping self)\<rparr>;
               self2 = self1\<lparr>dim := dim self1 + length s'\<rparr>
           in Featurizer_init_loop rest self2))"

definition Featurizer_init :: "(string \<times> pyval set) list \<Rightarrow> error + pyval Featurizer" where
  "Featurizer_init allowable_sets =
     Featurizer_init_loop allowable_sets \<lparr>dim = 0, features_mapping = []\<rparr>"

text \<open>
  \<open>Featurizer.encode\<close>. \<open>getattr(self, name_feature)\<close> is the lookup \<open>methods name_feature\<close>
  in the extractor methods of the (sub)class; a missing attribute raises
  \<open>AttributeError\<close>. The store \<open>output[i] = 1.0\<close> raises \<open>IndexError\<close> out of range.
\<close>

fun encode_loop ::
  "(string \<rightharpoonup> ('a \<Rightarrow> 'v)) \<Rightarrow> 'a \<Rightarrow> (string \<times> ('v \<rightharpoonup> nat)) list \<Rightarrow> real list
     \<Rightarrow> error + real list" where
  "encode_loop methods inputs [] output = Inr output"
| "encode_loop methods inputs ((name_feature, feature_mapping) # rest) output =
     (case methods name_feature of
        None \<Rightarrow> Inl (AttributeError name_feature)
      | Some extractor \<Rightarrow>
          (let feature = extractor inputs in
           case feature_mapping feature of
             None \<Rightarrow> encode_loop methods inputs rest output
           | Some i \<Rightarrow>
               if i < length output
               then encode_loop methods inputs rest (output[i := 1])
               else Inl IndexError))"

definition encode ::
  "'v Featurizer \<Rightarrow> (string \<rightharpoonup> ('a \<Rightarrow> 'v)) \<Rightarrow> 'a \<Rightarrow> error + real list" where
  "encode self methods inputs =
     encode_loop methods inputs (features_mapping self) (replicate (dim self) 0)"

subsection \<open>AtomFeaturizer and BondFeaturizer\<close>

text \<open>
  Modelled from the spec: the atom and bond objects of the chemistry toolkit, which is
  an external collaborator. An atom is the record of what its accessors return
  (\<open>GetSymbol\<close>, \<open>GetTotalValence\<close>, \<open>GetTotalNumHs\<close> and the name of
  \<open>GetHybridization()\<close>); a bond likewise (the name of \<open>GetBondType()\<close> and
  \<open>GetIsConjugated\<close>).
\<close>

record Atom =
  GetSymbol :: string
  GetTotalValence :: int
  GetTotalNumHs :: int
  GetHybridization_name :: string

record Bond =
  GetBondType_name :: string
  GetIsConjugated :: bool

definition lower_char :: "char \<Rightarrow> char" where
  "lower_char c =
     (if CHR ''A'' \<le> c \<and> c \<le> CHR ''Z'' then char_of (of_char c + (32::nat)) else c)"

definition lower :: "string \<Rightarrow> string" where
  "lower s = map lower_char s"

definition AtomFeaturizer_methods :: "string \<rightharpoonup> (Atom \<Rightarrow> pyval)" where
  "AtomFeaturizer_methods =
     [''symbol'' \<mapsto> (\<lambda>atom. PStr (GetSymbol atom)),
      ''n_valence'' \<mapsto> (\<lambda>atom. PInt (GetTotalValence atom)),
      ''n_hydrogens'' \<mapsto> (\<lambda>atom. PInt (GetTotalNumHs atom)),
      ''hybridization'' \<mapsto> (\<lambda>atom. PStr (lower (GetHybridization_name atom)))]"

definition BondFeaturizer_methods :: "string \<rightharpoonup> (Bond \<Rightarrow> pyval)" where
  "BondFeaturizer_methods =
     [''bond_type'' \<mapsto> (\<lambda>bond. PStr (lower (GetBondType_name bond))),
      ''conjugated'' \<mapsto> (\<lambda>bond. PBool (GetIsConjugated bond))]"

definition AtomFeaturizer_init ::
  "(string \<times> pyval set) list \<Rightarrow> error + pyval Featurizer" where
  "AtomFeaturizer_init allowable_sets = Featurizer_init allowable_sets"

definition BondFeaturizer_init ::
  "(string \<times> pyval set) list \<Rightarrow> error + pyval Featurizer" where
  "BondFeaturizer_init allowable_sets =
     (case Featurizer_init allowable_sets of
        Inl e \<Rightarrow> Inl e
      | Inr self \<Rightarrow> Inr (self\<lparr>dim := dim self + 1\<rparr>))"

text \<open>
  \<open>BondFeaturizer.encode\<close>: an absent bond (\<open>None\<close>) sets the last slot,
  \<open>output[-1] = 1.0\<close>, which raises \<open>IndexError\<close> on an empty vector; any other bond goes
  to \<open>Featurizer.encode\<close>.
\<close>

definition BondFeaturizer_encode :: "pyval Featurizer \<Rightarrow> Bond option \<Rightarrow> error + real list" where
  "BondFeaturizer_encode self bond =
     (let output = replicate (dim self) (0::real) in
      case bond of
        None \<Rightarrow> if output = [] then Inl IndexError
                else Inr (output[length output - 1 := 1])
      | Some b \<Rightarrow> encode self BondFeaturizer_methods b)"

definition atom_allowable_sets :: "(string \<times> pyval set) list" where
  "atom_allowable_sets =
     [(''symbol'', {PStr ''B'', PStr ''Br'', PStr ''C'', PStr ''Ca'', PStr ''Cl'', PStr ''F'',
                    PStr ''H'', PStr ''I'', PStr ''N'', PStr ''Na'', PStr ''O'', PStr ''P'',
                    PStr ''S''}),
      (''n_valence'', {PInt 0, PInt 1, PInt 2, PInt 3, PInt 4, PInt 5, PInt 6}),
      (''n_hydrogens'', {PInt 0, PInt 1, PInt 2, PInt 3, PInt 4}),
      (''hybridization'', {PStr ''s'', PStr ''sp'', PStr ''sp2'', PStr ''sp3''})]"

definition bond_allowable_sets :: "(string \<times> pyval set) list" where
  "bond_allowable_sets =
     [(''bond_type'', {PStr ''single'', PStr ''double'', PStr ''triple'', PStr ''aromatic''}),
      (''conjugated'', {PBool True, PBool False})]"

text \<open>
  The two module-level featurizers. Their constructor calls run once, when the module is
  loaded, and return normally (\<open>atom_featurizer_init\<close> and \<open>bond_featurizer_init\<close>
  below): the globals are the objects they return.
\<close>

definition atom_featurizer :: "pyval Featurizer" where
  "atom_featurizer = projr (AtomFeaturizer_init atom_allowable_sets)"

definition bond_featurizer :: "pyval Featurizer" where
  "bond_featurizer = projr (BondFeaturizer_init bond_allowable_sets)"

subsection \<open>The slots the constructor assigns\<close>

text \<open>
  What \<open>Featurizer.__init__\<close> computes, in closed form: category \<open>i\<close> owns the
  slots from \<open>slot_lo allowable_sets i\<close> on, one for each allowed value, and the table
  of mappings is \<open>slot_table 0 allowable_sets\<close>.
\<close>

fun slot_table ::
  "nat \<Rightarrow> (string \<times> ('v::linorder) set) list \<Rightarrow> (string \<times> ('v \<rightharpoonup> nat)) list" where
  "slot_table d [] = []"
| "slot_table d ((k, s) # rest) =
     (k, map_of (zip (sorted_list_of_set s) [d ..< d + card s])) # slot_table (d + card s) rest"

definition total_dim :: "(string \<times> 'v set) list \<Rightarrow> nat" where
  "total_dim allowable_sets = sum_list (map (\<lambda>(k, s). card s) allowable_sets)"

definition slot_lo :: "(string \<times> 'v set) list \<Rightarrow> nat \<Rightarrow> nat" where
  "slot_lo allowable_sets i = total_dim (take i allowable_sets)"

section \<open>Graph builder\<close>

text \<open>
  Modelled from the spec: the molecule object of the chemistry toolkit (an external
  collaborator). A molecule is its atoms, in the toolkit's index order (the index of an
  atom is its position), and its bonds, each with its two endpoint indices.
  \<open>GetAtoms\<close> enumerates the atoms with their indices, \<open>GetNeighbors\<close> lists the other
  endpoint of every bond at the atom, and \<open>GetBondBetweenAtoms\<close> finds the bond joining
  two atoms, in either direction, or \<open>None\<close>.
\<close>

record Mol =
  mol_atoms :: "Atom list"
  mol_bonds :: "(nat \<times> nat \<times> Bond) list"

definition GetAtoms :: "Mol \<Rightarrow> (nat \<times> Atom) list" where
  "GetAtoms molecule = zip [0..<length (mol_atoms molecule)] (mol_atoms molecule)"

definition bond_neighbors :: "(nat \<times> nat \<times> Bond) list \<Rightarrow> nat \<Rightarrow> nat list" where
  "bond_neighbors bonds idx =
     concat (map (\<lambda>(u, v, b). if u = idx then [v] else if v = idx then [u] else []) bonds)"

definition GetNeighbors :: "Mol \<Rightarrow> nat \<Rightarrow> nat list" where
  "GetNeighbors molecule idx = bond_neighbors (mol_bonds molecule) idx"

definition GetBondBetweenAtoms :: "Mol \<Rightarrow> nat \<Rightarrow> nat \<Rightarrow> Bond option" where
  "GetBondBetweenAtoms molecule i j =
     map_option (\<lambda>(u, v, b). b)
       (find (\<lambda>(u, v, b). (u = i \<and> v = j) \<or> (u = j \<and> v = i)) (mol_bonds molecule))"

text \<open>
  The toolkit's invariants on a molecule: the endpoints of a bond are atoms of the
  molecule, and no bond joins an atom to itself.
\<close>

definition wf_mol :: "Mol \<Rightarrow> bool" where
  "wf_mol molecule =
     list_all (\<lambda>(u, v, b). u < length (mol_atoms molecule) \<and> v < length (mol_atoms molecule)
                  \<and> u \<noteq> v) (mol_bonds molecule)"

type_synonym graph = "real list list \<times> real list list \<times> (int \<times> int) list"

text \<open>
  \<open>graph_from_molecule\<close>: the inner loop over the neighbours of one atom, the outer loop
  over the atoms. The three lists grow by \<open>append\<close>.
\<close>

fun neighbors_loop ::
  "Mol \<Rightarrow> nat \<Rightarrow> nat list \<Rightarrow> real list list \<times> (int \<times> int) list
     \<Rightarrow> error + real list list \<times> (int \<times> int) list" where
  "neighbors_loop molecule idx [] (bond_features, pair_indices) =
     Inr (bond_features, pair_indices)"
| "neighbors_loop molecule idx (neighbor # rest) (bond_features, pair_indices) =
     (let bond = GetBondBetweenAtoms molecule idx neighbor in
      case BondFeaturizer_encode bond_featurizer bond of
        Inl e \<Rightarrow> Inl e
      | Inr f \<Rightarrow>
          neighbors_loop molecule idx rest
            (bond_features @ [f], pair_indices @ [(int idx, int neighbor)]))"

fun atoms_loop :: "Mol \<Rightarrow> (nat \<times> Atom) list \<Rightarrow> graph \<Rightarrow> error + graph" where
  "atoms_loop molecule [] acc = Inr acc"
| "atoms_loop molecule ((idx, atom) # rest) (atom_features, bond_features, pair_indices) =
     (case encode atom_featurizer AtomFeaturizer_methods atom of
        Inl e \<Rightarrow> Inl e
      | Inr af \<Rightarrow>
          (case BondFeaturizer_encode bond_featurizer None of
             Inl e \<Rightarrow> Inl e
           | Inr bf \<Rightarrow>
               (case neighbors_loop molecule idx (GetNeighbors molecule idx)
                       (bond_features @ [bf], pair_indices @ [(int idx, int idx)]) of
                  Inl e \<Rightarrow> Inl e
                | Inr (bond_features', pair_indices') \<Rightarrow>
                    atoms_loop molecule rest
                      (atom_features @ [af], bond_features', pair_indices'))))"

definition graph_from_molecule :: "Mol \<Rightarrow> error + graph" where
  "graph_from_molecule molecule = atoms_loop molecule (GetAtoms molecule) ([], [], [])"

text \<open>The edge list in emission order: for each atom its self-loop, then its neighbours.\<close>

definition emitted_pairs :: "Mol \<Rightarrow> (int \<times> int) list" where
  "emitted_pairs molecule =
     concat (map (\<lambda>i. (int i, int i) # map (\<lambda>j. (int i, int j)) (GetNeighbors molecule i))
               [0..<length (mol_atoms molecule)])"

text \<open>Ethanol, \<open>CCO\<close>: three heavy atoms and two single bonds.\<close>

definition single_bond :: Bond where
  "single_bond = \<lparr>GetBondType_name = ''SINGLE'', GetIsConjugated = False\<rparr>"

definition ethanol :: Mol where
  "ethanol =
     \<lparr>mol_atoms =
        [\<lparr>GetSymbol = ''C'', GetTotalValence = 4, GetTotalNumHs = 3,
          GetHybridization_name = ''SP3''\<rparr>,
         \<lparr>GetSymbol = ''C'', GetTotalValence = 4, GetTotalNumHs = 2,
          GetHybridization_name = ''SP3''\<rparr>,
         \<lparr>GetSymbol = ''O'', GetTotalValence = 2, GetTotalNumHs = 1,
          GetHybridization_name = ''SP3''\<rparr>],
      mol_bonds = [(0, 1, single_bond), (1, 2, single_bond)]\<rparr>"

section \<open>Tensor primitives\<close>

text \<open>
  Modelled from the spec: the tensor framework, an external collaborator. The
  primitives below follow its documented behaviour on the ranks used here. A ragged
  tensor is a list of rows of any length. An operation that the framework rejects
  (indices out of range, shapes that do not broadcast, unsorted segment ids) returns
  \<open>InvalidArgumentError\<close>; the spec treats every such mismatch as fatal.
\<close>

definition tf_range :: "nat \<Rightarrow> int list" where
  "tf_range n = map int [0..<n]"

definition tf_repeat :: "'a list \<Rightarrow> nat list \<Rightarrow> error + 'a list" where
  "tf_repeat input repeats =
     (if length repeats = length input
      then Inr (concat (map2 (\<lambda>x r. replicate r x) input repeats))
      else if length repeats = 1
      then Inr (concat (map (\<lambda>x. replicate (hd repeats) x) input))
      else Inl InvalidArgumentError)"

fun cumsum_from :: "nat \<Rightarrow> nat list \<Rightarrow> nat list" where
  "cumsum_from acc [] = []"
| "cumsum_from acc (x # xs) = (acc + x) # cumsum_from (acc + x) xs"

definition tf_cumsum :: "nat list \<Rightarrow> nat list" where
  "tf_cumsum xs = cumsum_from 0 xs"

definition tf_gather :: "'a list \<Rightarrow> int list \<Rightarrow> error + 'a list" where
  "tf_gather params indices =
     (if list_all (\<lambda>i. 0 \<le> i \<and> i < int (length params)) indices
      then Inr (map (\<lambda>i. params ! nat i) indices)
      else Inl InvalidArgumentError)"

definition tf_pad_front :: "nat \<Rightarrow> nat list \<Rightarrow> nat list" where
  "tf_pad_front k xs = replicate k 0 @ xs"

definition merge_dims :: "'a list list \<Rightarrow> 'a list" where
  "merge_dims ragged = concat ragged"

text \<open>
  \<open>RaggedTensor.to_tensor()\<close> on a ragged matrix: every row is padded with zeros to the
  length of the longest row. An index pair is a row of width two by its type, so
  \<open>to_tensor\<close> leaves a list of index pairs as it is.
\<close>

definition to_tensor :: "real list list \<Rightarrow> real list list" where
  "to_tensor ragged =
     (let ncols = foldr max (map length ragged) 0
      in map (\<lambda>row. row @ replicate (ncols - length row) 0) ragged)"

text \<open>
  \<open>pair_indices + increment[:, tf.newaxis]\<close>: a \<open>[E, 2]\<close> tensor plus a \<open>[E', 1]\<close>
  tensor. The second axis broadcasts; the first must agree unless one side has a single
  row, which then broadcasts too. Both tensors hold 64-bit signed integers. The sum is
  modelled on the mathematical integers: it is the sum the code computes whenever the
  operands and the result lie in the 64-bit range (\<open>int64_indices\<close> below), as they do
  for every batch whose indices are node indices of its graphs.
\<close>

definition add_increment :: "(int \<times> int) list \<Rightarrow> nat list \<Rightarrow> error + (int \<times> int) list" where
  "add_increment pair_indices increment =
     (if length pair_indices = length increment
      then Inr (map2 (\<lambda>(s, d) k. (s + int k, d + int k)) pair_indices increment)
      else if length increment = 1
      then Inr (map (\<lambda>(s, d). (s + int (hd increment), d + int (hd increment))) pair_indices)
      else if length pair_indices = 1
      then Inr (map (\<lambda>k. (fst (hd pair_indices) + int k, snd (hd pair_indices) + int k))
                  increment)
      else Inl InvalidArgumentError)"

section \<open>Batch merger\<close>

type_synonym x_batch =
  "real list list list \<times> real list list list \<times> (int \<times> int) list list"

type_synonym merged =
  "real list list \<times> real list list \<times> (int \<times> int) list \<times> int list"

text \<open>
  \<open>Dataset.from_tensor_slices((X, y)).batch(batch_size)\<close> hands \<open>prepare_batch\<close> the
  graphs of one batch as three ragged tensors with one row per graph.
\<close>

definition batch_of :: "graph list \<Rightarrow> x_batch" where
  "batch_of graphs =
     (map (\<lambda>(a, b, p). a) graphs, map (\<lambda>(a, b, p). b) graphs, map (\<lambda>(a, b, p). p) graphs)"

definition prepare_batch :: "x_batch \<Rightarrow> 'y \<Rightarrow> error + merged \<times> 'y" where
  "prepare_batch x_batch y_batch =
     (case x_batch of (atom_features, bond_features, pair_indices) \<Rightarrow>
      let num_atoms = map length atom_features;
          num_bonds = map length bond_features;
          molecule_indices = tf_range (length num_atoms)
      in
      (case tf_repeat molecule_indices num_atoms of
         Inl e \<Rightarrow> Inl e
       | Inr atom_partition_indices \<Rightarrow>
      (case tf_repeat (butlast molecule_indices) (tl num_bonds) of
         Inl e \<Rightarrow> Inl e
       | Inr bond_partition_indices \<Rightarrow>
      (let increment = tf_cumsum (butlast num_atoms) in
      (case tf_gather increment bond_partition_indices of
         Inl e \<Rightarrow> Inl e
       | Inr gathered \<Rightarrow>
      (case num_bonds of
         [] \<Rightarrow> Inl InvalidArgumentError
       | num_bonds0 # _ \<Rightarrow>
      (let increment = tf_pad_front num_bonds0 gathered in
      (case add_increment (merge_dims pair_indices) increment of
         Inl e \<Rightarrow> Inl e
       | Inr pair_indices' \<Rightarrow>
           Inr ((to_tensor (merge_dims atom_features), to_tensor (merge_dims bond_features),
                 pair_indices', atom_partition_indices), y_batch)))))))))"

text \<open>The offset of graph \<open>i\<close>: the node counts of the graphs before it, summed.\<close>

definition node_offset :: "graph list \<Rightarrow> nat \<Rightarrow> nat" where
  "node_offset graphs i = sum_list (map (\<lambda>(a, b, p). length a) (take i graphs))"

definition shift_pairs :: "nat \<Rightarrow> (int \<times> int) list \<Rightarrow> (int \<times> int) list" where
  "shift_pairs k ps = map (\<lambda>(s, d). (s + int k, d + int k)) ps"

text \<open>
  A graph is well shaped when it has one pair of indices for each row of edge features,
  as every graph built by \<open>graph_from_molecule\<close> has.
\<close>

definition edge_shaped :: "graph \<Rightarrow> bool" where
  "edge_shaped g = (case g of (a, b, p) \<Rightarrow> length b = length p)"

definition local_indices :: "graph \<Rightarrow> bool" where
  "local_indices g =
     (case g of (a, b, p) \<Rightarrow>
        list_all (\<lambda>(s, d). 0 \<le> s \<and> s < int (length a) \<and> 0 \<le> d \<and> d < int (length a)) p)"

text \<open>
  A matrix has uniform rows when all its rows have the same length, so that
  \<open>to_tensor\<close> pads nothing. A batch stays within the 64-bit integers when the node
  and edge counts of every graph, its offset, its indices and its shifted indices all
  lie in the 64-bit signed range, so that no sum of \<open>prepare_batch\<close> wraps around.
\<close>

definition uniform_rows :: "real list list \<Rightarrow> bool" where
  "uniform_rows rows = list_all (\<lambda>row. length row = length (hd rows)) rows"

definition int64 :: "int \<Rightarrow> bool" where
  "int64 x = (- (2 ^ 63) \<le> x \<and> x < 2 ^ 63)"

definition int64_indices :: "graph list \<Rightarrow> bool" where
  "int64_indices graphs =
     list_all (\<lambda>i. case graphs ! i of (a, b, p) \<Rightarrow>
                  int64 (int (length a)) \<and> int64 (int (length b))
                  \<and> int64 (int (node_offset graphs i))
                  \<and> list_all (\<lambda>(s, d). int64 s \<and> int64 d
                                  \<and> int64 (s + int (node_offset graphs i))
                                  \<and> int64 (d + int (node_offset graphs i))) p)
       [0..<length graphs]"

section \<open>Closed forms and sample data\<close>

text \<open>
  The merged edge list and the membership array in closed form: the edges of graph \<open>i\<close>
  shifted by its node offset, and the index \<open>i\<close> repeated once for each node of
  graph \<open>i\<close>. \<open>edge_offset graphs i\<close> is the position of the first edge of graph \<open>i\<close>
  in the merged edge list.
\<close>

definition merged_pairs :: "graph list \<Rightarrow> (int \<times> int) list" where
  "merged_pairs graphs =
     concat (map (\<lambda>i. shift_pairs (node_offset graphs i) (snd (snd (graphs ! i))))
               [0..<length graphs])"

definition membership :: "graph list \<Rightarrow> int list" where
  "membership graphs =
     concat (map (\<lambda>i. replicate (length (fst (graphs ! i))) (int i)) [0..<length graphs])"

definition edge_offset :: "graph list \<Rightarrow> nat \<Rightarrow> nat" where
  "edge_offset graphs i = sum_list (map (\<lambda>(a, b, p). length p) (take i graphs))"

text \<open>Three small graphs, with two, one and three nodes, and a one-atom molecule.\<close>

definition graph_A :: graph where
  "graph_A = ([[1, 0], [0, 1]], [[1], [0], [1], [0]], [(0, 0), (0, 1), (1, 1), (1, 0)])"

definition graph_B :: graph where
  "graph_B = ([[1, 1]], [[1]], [(0, 0)])"

definition graph_C :: graph where
  "graph_C = ([[0, 1], [1, 1], [1, 0]], [[1], [1], [1]], [(0, 0), (1, 1), (2, 2)])"

definition methane :: Mol where
  "methane =
     \<lparr>mol_atoms = [\<lparr>GetSymbol = ''C'', GetTotalValence = 4, GetTotalNumHs = 4,
                    GetHybridization_name = ''SP3''\<rparr>],
      mol_bonds = []\<rparr>"

text \<open>
  A carbon atom (valence 4, no hydrogens, sp3) and an atom whose symbol is outside the
  declared vocabulary.
\<close>

definition carbon :: Atom where
  "carbon = \<lparr>GetSymbol = ''C'', GetTotalValence = 4, GetTotalNumHs = 0,
              GetHybridization_name = ''SP3''\<rparr>"

definition xenon :: Atom where
  "xenon = \<lparr>GetSymbol = ''Xe'', GetTotalValence = 0, GetTotalNumHs = 0,
              GetHybridization_name = ''UNSPECIFIED''\<rparr>"

text \<open>A conjugated bond whose type is outside the declared vocabulary.\<close>

definition dative_bond :: Bond where
  "dative_bond = \<lparr>GetBondType_name = ''DATIVE'', GetIsConjugated = True\<rparr>"

section \<open>Message passing\<close>

text \<open>
  Modelled from the spec: the dense operations of the tensor framework and its
  recurrent cell, which the spec treats as black boxes. Tensors of floating-point
  numbers are modelled over the reals: a vector is a list, a matrix a list of rows.
  \<open>vecmat v K n\<close> is the row vector \<open>v\<close> times the matrix \<open>K\<close> with \<open>n\<close> columns,
  \<open>reshape d v\<close> the row-major \<open>d \<times> d\<close> matrix of a vector, \<open>matvec\<close> a matrix
  times a column vector.

  \<open>tf.math.segment_sum\<close> follows the framework's documentation: the segment ids are
  sorted and non-negative (the CPU kernel rejects any others), the output has one row
  for each id up to the last one, and a segment with no row is zero.

  The gated recurrent cell updates each row of the state from the same row of the
  input; it rejects inputs and states with different numbers of rows.
\<close>

definition dot :: "real list \<Rightarrow> real list \<Rightarrow> real" where
  "dot u v = sum_list (map2 (*) u v)"

definition matvec :: "real list list \<Rightarrow> real list \<Rightarrow> real list" where
  "matvec M v = map (\<lambda>row. dot row v) M"

definition vecmat :: "real list \<Rightarrow> real list list \<Rightarrow> nat \<Rightarrow> real list" where
  "vecmat v K n = map (\<lambda>j. (\<Sum>k\<leftarrow>[0..<length v]. v ! k * K ! k ! j)) [0..<n]"

definition vadd :: "real list \<Rightarrow> real list \<Rightarrow> real list" where
  "vadd u v = map2 (+) u v"

definition reshape :: "nat \<Rightarrow> real list \<Rightarrow> real list list" where
  "reshape d v = map (\<lambda>r. take d (drop (r * d) v)) [0..<d]"

definition tf_segment_sum :: "nat \<Rightarrow> real list list \<Rightarrow> int list \<Rightarrow> error + real list list" where
  "tf_segment_sum d data segment_ids =
     (if length data \<noteq> length segment_ids \<or> \<not> sorted segment_ids
         \<or> \<not> list_all (\<lambda>i. 0 \<le> i) segment_ids
      then Inl InvalidArgumentError
      else Inr (map (\<lambda>k. foldl vadd (replicate d 0)
                          (map fst (filter (\<lambda>(row, i). i = int k) (zip data segment_ids))))
                  [0..<(if segment_ids = [] then 0 else nat (last segment_ids) + 1)]))"

text \<open>
  \<open>EdgeNetwork\<close>: the dimensions fixed by \<open>build\<close> and the two weights. \<open>call\<close> projects
  each edge feature vector to a \<open>d \<times> d\<close> matrix, multiplies it by the state of the
  edge's second endpoint, and sums the products over the edges with the same first
  endpoint. The batched product is modelled for as many matrices as neighbour states,
  one per edge, as in every graph that \<open>graph_from_molecule\<close> and \<open>prepare_batch\<close>
  build; a single matrix or a single state, which the framework would broadcast, is
  rejected.
\<close>

record EdgeNetwork =
  atom_dim :: nat
  bond_dim :: nat
  kernel :: "real list list"
  bias :: "real list"

definition EdgeNetwork_call ::
  "EdgeNetwork \<Rightarrow> real list list \<times> real list list \<times> (int \<times> int) list \<Rightarrow> error + real list list" where
  "EdgeNetwork_call self inputs =
     (case inputs of (atom_features, bond_features, pair_indices) \<Rightarrow>
      if \<not> list_all (\<lambda>row. length row = bond_dim self) bond_features
      then Inl InvalidArgumentError
      else
        (let bond_features =
               map (\<lambda>row. vadd (vecmat row (kernel self) (atom_dim self * atom_dim self)) (bias self))
                 bond_features;
             bond_features = map (reshape (atom_dim self)) bond_features
         in
         (case tf_gather atom_features (map snd pair_indices) of
            Inl e \<Rightarrow> Inl e
          | Inr atom_features_neighbors \<Rightarrow>
              if length bond_features \<noteq> length atom_features_neighbors
                 \<or> \<not> list_all (\<lambda>row. length row = atom_dim self) atom_features_neighbors
              then Inl InvalidArgumentError
              else
                (let transformed_features = map2 matvec bond_features atom_features_neighbors
                 in tf_segment_sum (atom_dim self) transformed_features (map fst pair_indices)))))"

definition GRUCell_call ::
  "(real list \<Rightarrow> real list \<Rightarrow> real list) \<Rightarrow> real list list \<Rightarrow> real list list
     \<Rightarrow> error + real list list" where
  "GRUCell_call cell inputs states =
     (if length inputs = length states then Inr (map2 cell inputs states)
      else Inl InvalidArgumentError)"

text \<open>
  \<open>MessagePassing\<close>: \<open>build\<close> pads the state up to \<open>units\<close> and creates the edge
  network on the padded dimension; \<open>call\<close> pads the atom features with zeros and runs
  \<open>steps\<close> rounds of aggregation followed by the recurrent update.
\<close>

record MessagePassing =
  units :: nat
  steps :: nat
  mp_atom_dim :: nat
  message_step :: EdgeNetwork
  pad_length :: nat
  update_step :: "real list \<Rightarrow> real list \<Rightarrow> real list"

fun message_passing_loop ::
  "MessagePassing \<Rightarrow> nat \<Rightarrow> real list list \<Rightarrow> (int \<times> int) list \<Rightarrow> real list list
     \<Rightarrow> error + real list list" where
  "message_passing_loop self 0 bond_features pair_indices atom_features_updated =
     Inr atom_features_updated"
| "message_passing_loop self (Suc k) bond_features pair_indices atom_features_updated =
     (case EdgeNetwork_call (message_step self)
             (atom_features_updated, bond_features, pair_indices) of
        Inl e \<Rightarrow> Inl e
      | Inr atom_features_aggregated \<Rightarrow>
          (case GRUCell_call (update_step self) atom_features_aggregated atom_features_updated of
             Inl e \<Rightarrow> Inl e
           | Inr atom_features_updated' \<Rightarrow>
               message_passing_loop self k bond_features pair_indices atom_features_updated'))"

definition MessagePassing_call ::
  "MessagePassing \<Rightarrow> real list list \<times> real list list \<times> (int \<times> int) list \<Rightarrow> error + real list list" where
  "MessagePassing_call self inputs =
     (case inputs of (atom_features, bond_features, pair_indices) \<Rightarrow>
      let atom_features_updated = map (\<lambda>row. row @ replicate (pad_length self) 0) atom_features
      in message_passing_loop self (steps self) bond_features pair_indices atom_features_updated)"

definition MessagePassing_build ::
  "nat \<Rightarrow> nat \<Rightarrow> nat \<Rightarrow> nat \<Rightarrow> real list list \<Rightarrow> real list
     \<Rightarrow> (real list \<Rightarrow> real list \<Rightarrow> real list) \<Rightarrow> MessagePassing" where
  "MessagePassing_build units' steps' atom_dim' bond_dim' kernel' bias' cell =
     (let pad = max 0 (units' - atom_dim') in
      \<lparr>units = units', steps = steps', mp_atom_dim = atom_dim',
       message_step = \<lparr>atom_dim = atom_dim' + pad, bond_dim = bond_dim',
                        kernel = kernel', bias = bias'\<rparr>,
       pad_length = pad, update_step = cell\<rparr>)"

definition sample_net :: EdgeNetwork where
  "sample_net = \<lparr>atom_dim = 1, bond_dim = 1, kernel = [[1]], bias = [0]\<rparr>"

definition sample_mp :: MessagePassing where
  "sample_mp = MessagePassing_build 1 3 1 1 [[1]] [0] (\<lambda>x h. vadd x h)"

section \<open>Relabelling the nodes of a graph\<close>

text \<open>
  The aggregation in closed form: \<open>edge_message\<close> is the message an edge with features
  \<open>b\<close> carries from a neighbour state, \<open>aggregate\<close> the sum of the messages of the
  edges with source \<open>k\<close>, \<open>edges_ok\<close> the checks \<open>EdgeNetwork.call\<close> passes, and
  \<open>num_segments\<close> the number of rows \<open>segment_sum\<close> returns. \<open>relabel p\<close> rewrites
  an edge \<open>(s, d)\<close> to \<open>(p s, p d)\<close>; \<open>swap01\<close> exchanges the nodes 0 and 1.
\<close>

definition edge_message :: "EdgeNetwork \<Rightarrow> real list \<Rightarrow> real list \<Rightarrow> real list" where
  "edge_message self b hrow =
     matvec (reshape (atom_dim self)
               (vadd (vecmat b (kernel self) (atom_dim self * atom_dim self)) (bias self))) hrow"

definition aggregate ::
  "EdgeNetwork \<Rightarrow> real list list \<Rightarrow> (real list \<times> int \<times> int) list \<Rightarrow> nat \<Rightarrow> real list" where
  "aggregate self h edges k =
     foldl vadd (replicate (atom_dim self) 0)
       (map (\<lambda>(b, s, d). edge_message self b (h ! nat d))
          (filter (\<lambda>(b, s, d). s = int k) edges))"

definition relabel :: "(nat \<Rightarrow> nat) \<Rightarrow> int \<times> int \<Rightarrow> int \<times> int" where
  "relabel p = (\<lambda>(s, d). (int (p (nat s)), int (p (nat d))))"

definition edges_ok :: "EdgeNetwork \<Rightarrow> real list list \<Rightarrow> real list list \<Rightarrow> (int \<times> int) list \<Rightarrow> bool" where
  "edges_ok self h bf ps =
     (list_all (\<lambda>row. length row = bond_dim self) bf
      \<and> length bf = length ps
      \<and> list_all (\<lambda>(s, d). 0 \<le> s \<and> 0 \<le> d \<and> d < int (length h)
                     \<and> length (h ! nat d) = atom_dim self) ps
      \<and> sorted (map fst ps))"

definition num_segments :: "(int \<times> int) list \<Rightarrow> nat" where
  "num_segments ps = (if ps = [] then 0 else nat (fst (last ps)) + 1)"

definition swap01 :: "nat \<Rightarrow> nat" where
  "swap01 i = 1 - i"

section \<open>The featurizer: what the constructor and \<open>encode\<close> compute\<close>

lemma update_fresh: "k \<notin> fst ` set xs \<Longrightarrow> AList.update k v xs = xs @ [(k, v)]"
  by (induction xs) auto

lemma total_dim_simps [simp]:
  "total_dim [] = 0" "total_dim ((k, s) # rest) = card s + total_dim rest"
  by (simp_all add: total_dim_def)

lemma sorted_py_Inr: "sorted_py s = Inr s' \<Longrightarrow> s' = sorted_list_of_set s"
  by (auto simp: sorted_py_def split: if_splits)

lemma init_loop_eq:
  "Featurizer_init_loop as self = Inr self' \<Longrightarrow>
   distinct (map fst as) \<Longrightarrow> fst ` set as \<inter> fst ` set (features_mapping self) = {} \<Longrightarrow>
   self' = self\<lparr>dim := dim self + total_dim as,
          features_mapping := features_mapping self @ slot_table (dim self) as\<rparr>"
proof (induction as arbitrary: self)
  case Nil
  then show ?case by simp
next
  case (Cons a as)
  obtain k s where a: "a = (k, s)" by (cases a)
  from Cons.prems(1) obtain s' where s': "sorted_py s = Inr s'"
    by (cases "sorted_py s") (simp_all add: a)
  have s'_eq: "s' = sorted_list_of_set s" using s' by (rule sorted_py_Inr)
  have fresh: "k \<notin> fst ` set (features_mapping self)"
    using Cons.prems(3) a by auto
  let ?m = "map_of (zip (sorted_list_of_set s) [dim self ..< card s + dim self])"
  let ?self2 = "self\<lparr>features_mapping := features_mapping self @ [(k, ?m)],
                      dim := dim self + card s\<rparr>"
  have d: "distinct (map fst as)" using Cons.prems(2) by simp
  have disj: "fst ` set as \<inter> fst ` set (features_mapping ?self2) = {}"
    using Cons.prems(2,3) a by auto
  have "Featurizer_init_loop (a # as) self = Featurizer_init_loop as ?self2"
    by (simp add: a s' s'_eq Let_def update_fresh [OF fresh])
  with Cons.prems(1) have "Featurizer_init_loop as ?self2 = Inr self'" by simp
  from Cons.IH [OF this d disj]
  have "self' = ?self2\<lparr>dim := dim ?self2 + total_dim as,
          features_mapping := features_mapping ?self2 @ slot_table (dim ?self2) as\<rparr>" .
  also have "\<dots> = self\<lparr>dim := dim self + total_dim (a # as),
          features_mapping := features_mapping self @ slot_table (dim self) (a # as)\<rparr>"
    by (simp add: a add.commute add.assoc)
  finally show ?case .
qed

lemma Featurizer_init_eq:
  "Featurizer_init as = Inr self \<Longrightarrow> distinct (map fst as) \<Longrightarrow>
   self = \<lparr>dim = total_dim as, features_mapping = slot_table 0 as\<rparr>"
  using init_loop_eq [of as "\<lparr>dim = 0, features_mapping = []\<rparr>" self]
  by (simp add: Featurizer_init_def)

lemma init_loop_total:
  "list_all (\<lambda>(k, s). sorted_py s \<noteq> Inl TypeError) as \<Longrightarrow>
   \<exists>self'. Featurizer_init_loop as self = Inr self'"
proof (induction as arbitrary: self)
  case Nil
  then show ?case by simp
next
  case (Cons a as)
  obtain k s where a: "a = (k, s)" by (cases a)
  from Cons.prems have "sorted_py s = Inr (sorted_list_of_set s)"
    by (simp add: a sorted_py_def split: if_splits)
  moreover from Cons.prems have "list_all (\<lambda>(k, s). sorted_py s \<noteq> Inl TypeError) as"
    by simp
  ultimately show ?case
    using Cons.IH by (simp add: a Let_def)
qed

lemma encode_loop_pointwise:
  "(\<forall>(k, m) \<in> set fm. methods k \<noteq> None) \<Longrightarrow>
   (\<forall>(k, m) \<in> set fm. \<forall>v j. m v = Some j \<longrightarrow> j < length out) \<Longrightarrow>
   \<exists>out'. encode_loop methods x fm out = Inr out' \<and> length out' = length out \<and>
     (\<forall>j < length out. out' ! j =
        (if \<exists>(k, m) \<in> set fm. \<exists>f. methods k = Some f \<and> m (f x) = Some j then 1 else out ! j))"
proof (induction fm arbitrary: out)
  case Nil
  then show ?case by simp
next
  case (Cons a fm)
  obtain k m where a: "a = (k, m)" by (cases a)
  obtain f where f: "methods k = Some f" using Cons.prems(1) a by auto
  show ?case
  proof (cases "m (f x)")
    case None
    have p1: "\<forall>(k, m) \<in> set fm. methods k \<noteq> None" using Cons.prems(1) by auto
    have p2: "\<forall>(k, m) \<in> set fm. \<forall>v j. m v = Some j \<longrightarrow> j < length out"
      using Cons.prems(2) by auto
    from Cons.IH [OF p1 p2] obtain out' where
      o: "encode_loop methods x fm out = Inr out'" "length out' = length out"
      "\<forall>j < length out. out' ! j =
        (if \<exists>(k, m) \<in> set fm. \<exists>f. methods k = Some f \<and> m (f x) = Some j then 1 else out ! j)"
      by blast
    have "encode_loop methods x (a # fm) out = Inr out'"
      using o(1) by (simp add: a f None)
    moreover have "\<forall>j < length out. out' ! j =
        (if \<exists>(k, m) \<in> set (a # fm). \<exists>f. methods k = Some f \<and> m (f x) = Some j then 1 else out ! j)"
      using o(3) by (auto simp: a f None)
    ultimately show ?thesis using o(2) by blast
  next
    case (Some i)
    have i: "i < length out" using Cons.prems(2) a Some by auto
    have p1: "\<forall>(k, m) \<in> set fm. methods k \<noteq> None" using Cons.prems(1) by auto
    have p2: "\<forall>(k, m) \<in> set fm. \<forall>v j. m v = Some j \<longrightarrow> j < length (out[i := 1])"
      using Cons.prems(2) by auto
    from Cons.IH [OF p1 p2] obtain out' where
      o: "encode_loop methods x fm (out[i := 1]) = Inr out'" "length out' = length out"
      "\<forall>j < length out. out' ! j =
        (if \<exists>(k, m) \<in> set fm. \<exists>f. methods k = Some f \<and> m (f x) = Some j then 1 else out[i := 1] ! j)"
      by auto
    have "encode_loop methods x (a # fm) out = Inr out'"
      using o(1) i by (simp add: a f Some)
    moreover have "\<forall>j < length out. out' ! j =
        (if \<exists>(k, m) \<in> set (a # fm). \<exists>f. methods k = Some f \<and> m (f x) = Some j then 1 else out ! j)"
      using o(3) i by (auto simp: a f Some nth_list_update)
    ultimately show ?thesis using o(2) by blast
  qed
qed

lemma slot_table_keys: "map fst (slot_table d as) = map fst as"
  by (induction as arbitrary: d) auto

lemma slot_table_bounds:
  "(k, m) \<in> set (slot_table d as) \<Longrightarrow> m v = Some j \<Longrightarrow> d \<le> j \<and> j < d + total_dim as"
proof (induction as arbitrary: d)
  case Nil
  then show ?case by simp
next
  case (Cons a as)
  obtain k' s where a: "a = (k', s)" by (cases a)
  from Cons.prems(1) consider
    (hd) "m = map_of (zip (sorted_list_of_set s) [d ..< d + card s])"
    | (tl) "(k, m) \<in> set (slot_table (d + card s) as)"
    by (auto simp: a)
  then show ?case
  proof cases
    case hd
    with Cons.prems(2) have "(v, j) \<in> set (zip (sorted_list_of_set s) [d ..< d + card s])"
      by (auto dest: map_of_SomeD)
    then have "j \<in> set [d ..< d + card s]" by (rule set_zip_rightD)
    then show ?thesis by (simp add: a)
  next
    case tl
    from Cons.IH [OF tl Cons.prems(2)] show ?thesis by (simp add: a)
  qed
qed

lemma encode_init_total:
  assumes "distinct (map fst as)" and "\<forall>(k, s) \<in> set as. methods k \<noteq> None"
    and "Featurizer_init as = Inr self0"
    and "self = self0\<lparr>dim := dim self0 + extra\<rparr>"
  shows "\<exists>out. encode self methods x = Inr out \<and> length out = total_dim as + extra"
proof -
  have fm: "features_mapping self = slot_table 0 as" and dm: "dim self = total_dim as + extra"
    using Featurizer_init_eq [OF assms(3,1)] assms(4) by simp_all
  have "set (map fst (slot_table 0 as)) = set (map fst as)"
    by (simp add: slot_table_keys)
  then have keys: "fst ` set (slot_table 0 as) = fst ` set as" by simp
  have p1: "\<forall>(k, m) \<in> set (slot_table 0 as). methods k \<noteq> None"
  proof -
    have "methods k \<noteq> None" if "(k, m) \<in> set (slot_table 0 as)" for k m
    proof -
      from that have "k \<in> fst ` set as" using keys by force
      then obtain s where "(k, s) \<in> set as" by auto
      with assms(2) show ?thesis by auto
    qed
    then show ?thesis by auto
  qed
  have p2: "\<forall>(k, m) \<in> set (slot_table 0 as). \<forall>v j. m v = Some j \<longrightarrow>
              j < length (replicate (total_dim as + extra) (0::real))"
    using slot_table_bounds [where d = 0 and as = as] by fastforce
  from encode_loop_pointwise [OF p1 p2, of x] show ?thesis
    by (auto simp: encode_def fm dm)
qed

text \<open>The two constructor calls of the module return normally.\<close>

lemma atom_featurizer_init: "AtomFeaturizer_init atom_allowable_sets = Inr atom_featurizer"
proof -
  have "list_all (\<lambda>(k, s). sorted_py s \<noteq> Inl TypeError) atom_allowable_sets"
    by (simp add: atom_allowable_sets_def sorted_py_def)
  from init_loop_total [OF this] obtain self where
    "Featurizer_init atom_allowable_sets = Inr self"
    unfolding Featurizer_init_def by blast
  then show ?thesis
    by (simp add: atom_featurizer_def AtomFeaturizer_init_def)
qed

lemma bond_featurizer_init: "BondFeaturizer_init bond_allowable_sets = Inr bond_featurizer"
proof -
  have "list_all (\<lambda>(k, s). sorted_py s \<noteq> Inl TypeError) bond_allowable_sets"
    by (simp add: bond_allowable_sets_def sorted_py_def PBool_def)
  from init_loop_total [OF this] obtain self where
    "Featurizer_init bond_allowable_sets = Inr self"
    unfolding Featurizer_init_def by blast
  then show ?thesis
    by (simp add: bond_featurizer_def BondFeaturizer_init_def)
qed

lemma bond_featurizer_eq:
  "\<exists>self0. Featurizer_init bond_allowable_sets = Inr self0
     \<and> bond_featurizer = self0\<lparr>dim := dim self0 + 1\<rparr>"
  using bond_featurizer_init
  by (cases "Featurizer_init bond_allowable_sets") (auto simp: BondFeaturizer_init_def)

lemma atom_encode_total:
  "\<exists>out. encode atom_featurizer AtomFeaturizer_methods atom = Inr out"
proof -
  have d: "distinct (map fst atom_allowable_sets)"
    by (simp add: atom_allowable_sets_def)
  have m: "\<forall>(k, s) \<in> set atom_allowable_sets. AtomFeaturizer_methods k \<noteq> None"
    by (simp add: atom_allowable_sets_def AtomFeaturizer_methods_def)
  have i: "Featurizer_init atom_allowable_sets = Inr atom_featurizer"
    using atom_featurizer_init by (simp add: AtomFeaturizer_init_def)
  have s: "atom_featurizer = atom_featurizer\<lparr>dim := dim atom_featurizer + 0\<rparr>"
    by simp
  from encode_init_total [OF d m i s] show ?thesis by blast
qed

lemma bond_encode_total:
  "\<exists>out. BondFeaturizer_encode bond_featurizer bond = Inr out"
proof -
  from bond_featurizer_eq obtain self0 where
    i: "Featurizer_init bond_allowable_sets = Inr self0"
    and s: "bond_featurizer = self0\<lparr>dim := dim self0 + 1\<rparr>"
    by blast
  show ?thesis
  proof (cases bond)
    case None
    have "dim bond_featurizer = dim self0 + 1" by (subst s) simp
    then show ?thesis by (simp add: BondFeaturizer_encode_def None)
  next
    case (Some b)
    have d: "distinct (map fst bond_allowable_sets)"
      by (simp add: bond_allowable_sets_def)
    have m: "\<forall>(k, s) \<in> set bond_allowable_sets. BondFeaturizer_methods k \<noteq> None"
      by (simp add: bond_allowable_sets_def BondFeaturizer_methods_def)
    from encode_init_total [OF d m i s] show ?thesis
      by (auto simp: BondFeaturizer_encode_def Some)
  qed
qed

section \<open>The graph builder\<close>

lemma neighbors_loop_eq:
  "\<exists>fs. neighbors_loop molecule idx ns (bf, ps) =
          Inr (bf @ fs, ps @ map (\<lambda>j. (int idx, int j)) ns) \<and> length fs = length ns"
proof (induction ns arbitrary: bf ps)
  case Nil
  then show ?case by simp
next
  case (Cons n ns)
  obtain f where f: "BondFeaturizer_encode bond_featurizer (GetBondBetweenAtoms molecule idx n) = Inr f"
    using bond_encode_total by blast
  from Cons.IH [of "bf @ [f]" "ps @ [(int idx, int n)]"] obtain fs where
    "neighbors_loop molecule idx ns (bf @ [f], ps @ [(int idx, int n)]) =
       Inr ((bf @ [f]) @ fs, (ps @ [(int idx, int n)]) @ map (\<lambda>j. (int idx, int j)) ns)"
    "length fs = length ns"
    by blast
  then have "neighbors_loop molecule idx (n # ns) (bf, ps) =
          Inr (bf @ (f # fs), ps @ map (\<lambda>j. (int idx, int j)) (n # ns)) \<and>
        length (f # fs) = length (n # ns)"
    by (simp add: f)
  then show ?case by blast
qed

lemma atoms_loop_eq:
  "\<exists>afs bfs. atoms_loop molecule ias (af, bf, ps) =
     Inr (af @ afs, bf @ bfs,
          ps @ concat (map (\<lambda>(i, a). (int i, int i) # map (\<lambda>j. (int i, int j))
                                         (GetNeighbors molecule i)) ias))
     \<and> length afs = length ias
     \<and> length bfs = length (concat (map (\<lambda>(i, a). (int i, int i) # map (\<lambda>j. (int i, int j))
                                         (GetNeighbors molecule i)) ias))"
proof (induction ias arbitrary: af bf ps)
  case Nil
  then show ?case by simp
next
  case (Cons ia ias)
  obtain i a where ia: "ia = (i, a)" by (cases ia)
  let ?row = "\<lambda>(i, a). (int i, int i) # map (\<lambda>j. (int i, int j)) (GetNeighbors molecule i)"
  obtain v where v: "encode atom_featurizer AtomFeaturizer_methods a = Inr v"
    using atom_encode_total by blast
  obtain l where l: "BondFeaturizer_encode bond_featurizer None = Inr l"
    using bond_encode_total by blast
  obtain fs where fs:
    "neighbors_loop molecule i (GetNeighbors molecule i) (bf @ [l], ps @ [(int i, int i)]) =
       Inr ((bf @ [l]) @ fs, (ps @ [(int i, int i)]) @ map (\<lambda>j. (int i, int j)) (GetNeighbors molecule i))"
    "length fs = length (GetNeighbors molecule i)"
    using neighbors_loop_eq by blast
  from Cons.IH [of "af @ [v]" "(bf @ [l]) @ fs"
      "(ps @ [(int i, int i)]) @ map (\<lambda>j. (int i, int j)) (GetNeighbors molecule i)"]
  obtain afs bfs where r:
    "atoms_loop molecule ias (af @ [v], (bf @ [l]) @ fs,
        (ps @ [(int i, int i)]) @ map (\<lambda>j. (int i, int j)) (GetNeighbors molecule i)) =
     Inr ((af @ [v]) @ afs, ((bf @ [l]) @ fs) @ bfs,
          ((ps @ [(int i, int i)]) @ map (\<lambda>j. (int i, int j)) (GetNeighbors molecule i))
            @ concat (map ?row ias))"
    "length afs = length ias" "length bfs = length (concat (map ?row ias))"
    by blast
  have "atoms_loop molecule (ia # ias) (af, bf, ps) =
     Inr (af @ (v # afs), bf @ (l # fs @ bfs), ps @ concat (map ?row (ia # ias)))"
    using r(1) by (simp add: ia v l fs(1))
  moreover have "length (v # afs) = length (ia # ias)" using r(2) by simp
  moreover have "length (l # fs @ bfs) = length (concat (map ?row (ia # ias)))"
    using r(3) fs(2) by (simp add: ia)
  ultimately show ?case by blast
qed

lemma graph_from_molecule_eq:
  "\<exists>afs bfs. graph_from_molecule molecule = Inr (afs, bfs, emitted_pairs molecule)
     \<and> length afs = length (mol_atoms molecule)
     \<and> length bfs = length (emitted_pairs molecule)"
proof -
  let ?n = "length (mol_atoms molecule)"
  let ?row = "\<lambda>(i, a :: Atom). (int i, int i) # map (\<lambda>j. (int i, int j)) (GetNeighbors molecule i)"
  let ?g = "\<lambda>i. (int i, int i) # map (\<lambda>j. (int i, int j)) (GetNeighbors molecule i)"
  have "map ?row (zip [0..<?n] (mol_atoms molecule)) =
        map (?g \<circ> fst) (zip [0..<?n] (mol_atoms molecule))"
    by (simp add: case_prod_unfold comp_def)
  also have "\<dots> = map ?g (map fst (zip [0..<?n] (mol_atoms molecule)))"
    by (simp only: map_map)
  also have "\<dots> = map ?g [0..<?n]"
    by simp
  finally have e: "concat (map ?row (GetAtoms molecule)) = emitted_pairs molecule"
    by (simp add: GetAtoms_def emitted_pairs_def)
  from atoms_loop_eq [of molecule "GetAtoms molecule" "[]" "[]" "[]"] e
  show ?thesis
    by (auto simp: graph_from_molecule_def GetAtoms_def)
qed

lemma one_bond_sum:
  assumes "u < n" "v < n" "u \<noteq> v"
  shows "(\<Sum>i\<leftarrow>[0..<n]. mset (map (\<lambda>j. (int i, int j))
            (if u = i then [v] else if v = i then [u] else []))) =
         {#(int u, int v), (int v, int u)#}"
proof -
  let ?F = "\<lambda>i. mset (map (\<lambda>j. (int i, int j)) (if u = i then [v] else if v = i then [u] else []))"
  have F: "?F i = (if i = u then {#(int u, int v)#} else {#}) + (if i = v then {#(int v, int u)#} else {#})" for i
    using assms(3) by auto
  have "(\<Sum>i\<leftarrow>[0..<n]. ?F i) = sum ?F {0..<n}"
    by (simp add: interv_sum_list_conv_sum_set_nat)
  also have "\<dots> = (\<Sum>i\<in>{0..<n}. if i = u then {#(int u, int v)#} else {#}) +
                   (\<Sum>i\<in>{0..<n}. if i = v then {#(int v, int u)#} else {#})"
    by (simp only: F sum.distrib)
  also have "\<dots> = {#(int u, int v), (int v, int u)#}"
    using assms(1,2) by (simp add: sum.delta)
  finally show ?thesis .
qed

lemma bond_pairs_mset:
  assumes "list_all (\<lambda>(u, v, b). u < n \<and> v < n \<and> u \<noteq> v) bonds"
  shows "(\<Sum>i\<leftarrow>[0..<n]. mset (map (\<lambda>j. (int i, int j)) (bond_neighbors bonds i))) =
         mset (concat (map (\<lambda>(u, v, b). [(int u, int v), (int v, int u)]) bonds))"
  using assms
proof (induction bonds)
  case Nil
  show ?case by (simp add: bond_neighbors_def)
next
  case (Cons e bonds)
  obtain u v b where e: "e = (u, v, b)" by (cases e)
  have uv: "u < n" "v < n" "u \<noteq> v" and rest: "list_all (\<lambda>(u, v, b). u < n \<and> v < n \<and> u \<noteq> v) bonds"
    using Cons.prems by (simp_all add: e)
  have split: "mset (map (\<lambda>j. (int i, int j)) (bond_neighbors (e # bonds) i)) =
        mset (map (\<lambda>j. (int i, int j)) (if u = i then [v] else if v = i then [u] else []))
        + mset (map (\<lambda>j. (int i, int j)) (bond_neighbors bonds i))" for i
    by (simp add: bond_neighbors_def e)
  have "(\<Sum>i\<leftarrow>[0..<n]. mset (map (\<lambda>j. (int i, int j)) (bond_neighbors (e # bonds) i))) =
        (\<Sum>i\<leftarrow>[0..<n]. mset (map (\<lambda>j. (int i, int j)) (if u = i then [v] else if v = i then [u] else [])))
        + (\<Sum>i\<leftarrow>[0..<n]. mset (map (\<lambda>j. (int i, int j)) (bond_neighbors bonds i)))"
    by (simp only: split sum_list_addf)
  also have "\<dots> = {#(int u, int v), (int v, int u)#} +
       mset (concat (map (\<lambda>(u, v, b). [(int u, int v), (int v, int u)]) bonds))"
    by (simp only: one_bond_sum [OF uv] Cons.IH [OF rest])
  also have "\<dots> = mset (concat (map (\<lambda>(u, v, b). [(int u, int v), (int v, int u)]) (e # bonds)))"
    by (simp add: e)
  finally show ?case .
qed

lemma emitted_pairs_mset:
  assumes "wf_mol molecule"
  shows "mset (emitted_pairs molecule) =
         mset (map (\<lambda>i. (int i, int i)) [0..<length (mol_atoms molecule)]) +
         mset (concat (map (\<lambda>(u, v, b). [(int u, int v), (int v, int u)]) (mol_bonds molecule)))"
proof -
  let ?n = "length (mol_atoms molecule)"
  have nb: "GetNeighbors molecule i = bond_neighbors (mol_bonds molecule) i" for i
    by (simp add: GetNeighbors_def)
  have "mset (emitted_pairs molecule) =
        (\<Sum>i\<leftarrow>[0..<?n]. {#(int i, int i)#} + mset (map (\<lambda>j. (int i, int j)) (bond_neighbors (mol_bonds molecule) i)))"
    by (simp add: emitted_pairs_def mset_concat comp_def nb)
  also have "\<dots> = (\<Sum>i\<leftarrow>[0..<?n]. {#(int i, int i)#}) +
        (\<Sum>i\<leftarrow>[0..<?n]. mset (map (\<lambda>j. (int i, int j)) (bond_neighbors (mol_bonds molecule) i)))"
    by (simp only: sum_list_addf)
  also have "(\<Sum>i\<leftarrow>[0..<?n]. {#(int i, int i)#}) = mset (map (\<lambda>i. (int i, int i)) [0..<?n])"
    by (induction "[0..<?n]" rule: rev_induct) (simp_all add: mset_map)
  also have "(\<Sum>i\<leftarrow>[0..<?n]. mset (map (\<lambda>j. (int i, int j)) (bond_neighbors (mol_bonds molecule) i))) =
      mset (concat (map (\<lambda>(u, v, b). [(int u, int v), (int v, int u)]) (mol_bonds molecule)))"
    using assms by (intro bond_pairs_mset) (simp add: wf_mol_def)
  finally show ?thesis .
qed

lemma length_bond_pairs:
  "length (concat (map (\<lambda>(u, v, b). [(int u, int v), (int v, int u)]) bonds)) = 2 * length bonds"
  by (induction bonds) auto

lemma length_emitted_pairs:
  assumes "wf_mol molecule"
  shows "length (emitted_pairs molecule) =
         length (mol_atoms molecule) + 2 * length (mol_bonds molecule)"
proof -
  have "size (mset (emitted_pairs molecule)) =
        length (mol_atoms molecule) + 2 * length (mol_bonds molecule)"
    by (simp only: emitted_pairs_mset [OF assms] size_union size_mset length_map length_upt length_bond_pairs)
  then show ?thesis by simp
qed

text \<open>
  C1. For every molecule with \<open>n\<close> atoms and \<open>m\<close> bonds, \<open>graph_from_molecule\<close> returns
  a node feature matrix with \<open>n\<close> rows and \<open>n + 2 m\<close> edges (index pairs and edge feature
  rows alike): as a multiset, the edges are one self-loop \<open>(i, i)\<close> for each atom and the
  two directed edges \<open>(u, v)\<close> and \<open>(v, u)\<close> for each bond.
\<close>

theorem graph_from_molecule_counts:
  assumes "wf_mol molecule"
  shows "\<exists>afs bfs ps. graph_from_molecule molecule = Inr (afs, bfs, ps)
     \<and> length afs = length (mol_atoms molecule)
     \<and> length ps = length (mol_atoms molecule) + 2 * length (mol_bonds molecule)
     \<and> length bfs = length (mol_atoms molecule) + 2 * length (mol_bonds molecule)
     \<and> mset ps =
         mset (map (\<lambda>i. (int i, int i)) [0..<length (mol_atoms molecule)]) +
         mset (concat (map (\<lambda>(u, v, b). [(int u, int v), (int v, int u)])
                         (mol_bonds molecule)))"
  using graph_from_molecule_eq [of molecule] emitted_pairs_mset [OF assms]
    length_emitted_pairs [OF assms]
  by auto

theorem graph_from_molecule_counts_ethanol:
  "wf_mol ethanol \<and>
   (\<exists>afs bfs ps. graph_from_molecule ethanol = Inr (afs, bfs, ps)
      \<and> length afs = 3 \<and> length ps = 7 \<and> length bfs = 7
      \<and> mset ps = mset [(0, 0), (1, 1), (2, 2), (0, 1), (1, 0), (1, 2), (2, 1)])"
proof -
  have wf: "wf_mol ethanol"
    by (simp add: wf_mol_def ethanol_def)
  have n: "length (mol_atoms ethanol) = 3" and m: "length (mol_bonds ethanol) = 2"
    by (simp_all add: ethanol_def)
  have e: "mset (map (\<lambda>i. (int i, int i)) [0..<length (mol_atoms ethanol)]) +
           mset (concat (map (\<lambda>(u, v, b). [(int u, int v), (int v, int u)])
                           (mol_bonds ethanol))) =
           mset [(0, 0), (1, 1), (2, 2), (0, 1), (1, 0), (1, 2), (2, 1)]"
    by (simp add: ethanol_def upt_rec)
  from graph_from_molecule_counts [OF wf] obtain afs bfs ps where
    "graph_from_molecule ethanol = Inr (afs, bfs, ps)"
    "length afs = length (mol_atoms ethanol)"
    "length ps = length (mol_atoms ethanol) + 2 * length (mol_bonds ethanol)"
    "length bfs = length (mol_atoms ethanol) + 2 * length (mol_bonds ethanol)"
    "mset ps = mset (map (\<lambda>i. (int i, int i)) [0..<length (mol_atoms ethanol)]) +
           mset (concat (map (\<lambda>(u, v, b). [(int u, int v), (int v, int u)])
                           (mol_bonds ethanol)))"
    by blast
  then have "graph_from_molecule ethanol = Inr (afs, bfs, ps) \<and> length afs = 3
      \<and> length ps = 7 \<and> length bfs = 7
      \<and> mset ps = mset [(0, 0), (1, 1), (2, 2), (0, 1), (1, 0), (1, 2), (2, 1)]"
    by (simp only: e) (simp add: n m)
  with wf show ?thesis by blast
qed

section \<open>The batch merger\<close>

lemma length_cumsum_from [simp]: "length (cumsum_from acc xs) = length xs"
  by (induction xs arbitrary: acc) auto

lemma nth_cumsum_from:
  "i < length xs \<Longrightarrow> cumsum_from acc xs ! i = acc + sum_list (take (Suc i) xs)"
proof (induction xs arbitrary: acc i)
  case Nil
  then show ?case by simp
next
  case (Cons x xs)
  show ?case
  proof (cases i)
    case 0
    then show ?thesis by simp
  next
    case (Suc k)
    with Cons.prems have "k < length xs" by simp
    from Cons.IH [OF this, of "acc + x"] show ?thesis by (simp add: Suc)
  qed
qed

lemma map2_upt:
  "length rs = k \<Longrightarrow>
   map2 g (map f [0..<k]) rs = map (\<lambda>i. g (f i) (rs ! i)) [0..<k]"
  by (rule nth_equalityI) auto

lemma tf_repeat_range:
  "length rs = k \<Longrightarrow>
   tf_repeat (map f [0..<k]) rs = Inr (concat (map (\<lambda>i. replicate (rs ! i) (f i)) [0..<k]))"
  by (simp add: tf_repeat_def map2_upt)

lemma butlast_tf_range: "butlast (tf_range k) = map int [0..<k - 1]"
  by (cases k) (simp_all add: tf_range_def map_butlast [symmetric])

lemma tf_gather_blocks:
  assumes "k \<le> length params"
  shows "tf_gather params (concat (map (\<lambda>i. replicate (r i) (int i)) [0..<k])) =
         Inr (concat (map (\<lambda>i. replicate (r i) (params ! i)) [0..<k]))"
proof -
  have "list_all (\<lambda>i. 0 \<le> i \<and> i < int (length params))
          (concat (map (\<lambda>i. replicate (r i) (int i)) [0..<k]))"
    using assms by (auto simp: list_all_iff)
  moreover have "map (\<lambda>i. params ! nat i) (concat (map (\<lambda>i. replicate (r i) (int i)) [0..<k])) =
        concat (map (\<lambda>i. replicate (r i) (params ! i)) [0..<k])"
    by (simp add: map_concat comp_def)
  ultimately show ?thesis by (simp add: tf_gather_def)
qed

lemma map2_blocks:
  "map2 h (concat (map P js)) (concat (map (\<lambda>i. replicate (length (P i)) (c i)) js)) =
   concat (map (\<lambda>i. map (\<lambda>x. h x (c i)) (P i)) js)"
proof (induction js)
  case Nil
  show ?case by simp
next
  case (Cons j js)
  have "map2 h (P j) (replicate (length (P j)) (c j)) = map (\<lambda>x. h x (c j)) (P j)"
    by (rule nth_equalityI) auto
  with Cons show ?case by (simp add: zip_append)
qed

lemma length_blocks:
  "length (concat (map (\<lambda>i. replicate (r i) (c i)) js)) = sum_list (map r js)"
  by (induction js) auto

lemma concat_conv_nth: "concat xss = concat (map (\<lambda>i. xss ! i) [0..<length xss])"
  by (simp add: map_nth)

lemma shift_blocks:
  fixes es :: "nat list"
  assumes "es \<noteq> []"
  shows "replicate (es ! 0) (0::nat) @
           concat (map (\<lambda>i. replicate (tl es ! i) (off (Suc i))) [0..<length es - 1]) =
         concat (map (\<lambda>i. replicate (es ! i) (if i = 0 then 0 else off i)) [0..<length es])"
proof -
  obtain e es' where es: "es = e # es'" using assms by (cases es) auto
  have "[0..<length es] = 0 # map Suc [0..<length es']"
    by (simp add: es upt_conv_Cons map_Suc_upt del: upt_Suc)
  then show ?thesis
    by (simp add: es comp_def)
qed

lemma add_increment_blocks:
  assumes "\<forall>i < k. r i = length (P i)"
  shows "add_increment (concat (map P [0..<k])) (concat (map (\<lambda>i. replicate (r i) (c i)) [0..<k]))
         = Inr (concat (map (\<lambda>i. shift_pairs (c i) (P i)) [0..<k]))"
proof -
  have r: "map (\<lambda>i. replicate (r i) (c i)) [0..<k] = map (\<lambda>i. replicate (length (P i)) (c i)) [0..<k]"
    using assms by simp
  have len: "length (concat (map P [0..<k])) =
             length (concat (map (\<lambda>i. replicate (length (P i)) (c i)) [0..<k]))"
    by (simp add: length_concat comp_def)
  have "map2 (\<lambda>(s, d) k. (s + int k, d + int k)) (concat (map P [0..<k]))
          (concat (map (\<lambda>i. replicate (length (P i)) (c i)) [0..<k])) =
        concat (map (\<lambda>i. map (\<lambda>x. (\<lambda>(s, d) k. (s + int k, d + int k)) x (c i)) (P i)) [0..<k])"
    by (rule map2_blocks)
  also have "\<dots> = concat (map (\<lambda>i. shift_pairs (c i) (P i)) [0..<k])"
    by (simp add: shift_pairs_def case_prod_unfold)
  finally show ?thesis
    using len by (simp add: add_increment_def r)
qed

lemma foldr_max_le:
  "\<forall>r \<in> set rows. length r \<le> n \<Longrightarrow> foldr max (map length rows) 0 \<le> n"
  by (induction rows) auto

lemma length_to_tensor [simp]: "length (to_tensor rows) = length rows"
  by (simp add: to_tensor_def Let_def)

lemma to_tensor_uniform: "uniform_rows rows \<Longrightarrow> to_tensor rows = rows"
proof -
  assume u: "uniform_rows rows"
  then have "\<forall>r \<in> set rows. length r \<le> length (hd rows)"
    by (simp add: uniform_rows_def list_all_iff)
  then have "foldr max (map length rows) 0 \<le> length (hd rows)" by (rule foldr_max_le)
  moreover have "\<forall>r \<in> set rows. length r = length (hd rows)"
    using u by (simp add: uniform_rows_def list_all_iff)
  ultimately have "map (\<lambda>row. row @ replicate (foldr max (map length rows) 0 - length row) 0) rows
      = map (\<lambda>row. row) rows"
    by (intro map_cong) simp_all
  then show ?thesis by (simp add: to_tensor_def Let_def)
qed

lemma prepare_batch_eq:
  assumes ne: "graphs \<noteq> []" and shaped: "\<forall>g \<in> set graphs. edge_shaped g"
  shows "prepare_batch (batch_of graphs) y =
     Inr ((to_tensor (concat (map (\<lambda>(a, b, p). a) graphs)),
           to_tensor (concat (map (\<lambda>(a, b, p). b) graphs)),
           merged_pairs graphs, membership graphs), y)"
proof -
  define B where "B = length graphs"
  define ps where "ps = map (\<lambda>(a, b, p). p) graphs"
  define ns where "ns = map length (map (\<lambda>(a, b, p). a) graphs)"
  define es where "es = map length (map (\<lambda>(a, b, p). b) graphs)"
  define off where "off = (\<lambda>i. sum_list (take i ns))"
  have len: "length ns = B" "length es = B" "length ps = B"
    by (simp_all add: ns_def es_def ps_def B_def)
  have B: "0 < B" using ne by (simp add: B_def)
  have ns_nth: "ns ! i = length (fst (graphs ! i))" if "i < B" for i
    using that by (simp add: ns_def B_def case_prod_unfold)
  have es_nth: "es ! i = length (ps ! i)" if "i < B" for i
  proof -
    from that have "graphs ! i \<in> set graphs" by (simp add: B_def)
    with shaped have "edge_shaped (graphs ! i)" by blast
    then show ?thesis
      using that by (simp add: es_def ps_def B_def edge_shaped_def case_prod_unfold)
  qed
  have ps_nth: "ps ! i = snd (snd (graphs ! i))" if "i < B" for i
    using that by (simp add: ps_def B_def case_prod_unfold)
  have off: "off i = node_offset graphs i" for i
    by (simp add: off_def ns_def node_offset_def take_map case_prod_unfold comp_def)
  \<comment> \<open>the membership array\<close>
  have "tf_repeat (tf_range (length ns)) ns =
        Inr (concat (map (\<lambda>i. replicate (ns ! i) (int i)) [0..<B]))"
    unfolding tf_range_def by (simp add: tf_repeat_range len)
  also have "map (\<lambda>i. replicate (ns ! i) (int i)) [0..<B] =
             map (\<lambda>i. replicate (length (fst (graphs ! i))) (int i)) [0..<length graphs]"
    by (rule map_cong) (simp_all add: ns_nth B_def)
  finally have step1: "tf_repeat (tf_range (length ns)) ns = Inr (membership graphs)"
    by (simp add: membership_def)
  \<comment> \<open>the partition of the edges of the graphs after the first\<close>
  have step2: "tf_repeat (butlast (tf_range (length ns))) (tl es) =
        Inr (concat (map (\<lambda>i. replicate (tl es ! i) (int i)) [0..<B - 1]))"
    by (simp add: butlast_tf_range tf_repeat_range len)
  \<comment> \<open>the offsets\<close>
  have inc_len: "B - 1 \<le> length (tf_cumsum (butlast ns))"
    by (simp add: tf_cumsum_def len)
  have inc_nth: "tf_cumsum (butlast ns) ! i = off (Suc i)" if "i < B - 1" for i
  proof -
    have "tf_cumsum (butlast ns) ! i = sum_list (take (Suc i) (butlast ns))"
      using that by (simp add: tf_cumsum_def nth_cumsum_from len)
    also have "take (Suc i) (butlast ns) = take (Suc i) ns"
      using that by (simp add: butlast_conv_take len)
    finally show ?thesis by (simp add: off_def)
  qed
  have "tf_gather (tf_cumsum (butlast ns))
          (concat (map (\<lambda>i. replicate (tl es ! i) (int i)) [0..<B - 1])) =
        Inr (concat (map (\<lambda>i. replicate (tl es ! i) (tf_cumsum (butlast ns) ! i)) [0..<B - 1]))"
    using inc_len by (rule tf_gather_blocks)
  also have "map (\<lambda>i. replicate (tl es ! i) (tf_cumsum (butlast ns) ! i)) [0..<B - 1] =
             map (\<lambda>i. replicate (tl es ! i) (off (Suc i))) [0..<B - 1]"
    by (rule map_cong) (simp_all add: inc_nth)
  finally have step3: "tf_gather (tf_cumsum (butlast ns))
          (concat (map (\<lambda>i. replicate (tl es ! i) (int i)) [0..<B - 1])) =
        Inr (concat (map (\<lambda>i. replicate (tl es ! i) (off (Suc i))) [0..<B - 1]))" .
  \<comment> \<open>padding with the zeros of the first graph\<close>
  have es_ne: "es \<noteq> []" using B len by auto
  then have e0: "hd es = es ! 0" by (simp add: hd_conv_nth)
  have "tf_pad_front (hd es) (concat (map (\<lambda>i. replicate (tl es ! i) (off (Suc i))) [0..<B - 1])) =
        replicate (es ! 0) 0 @
          concat (map (\<lambda>i. replicate (tl es ! i) (off (Suc i))) [0..<length es - 1])"
    by (simp add: tf_pad_front_def e0 len)
  also have "\<dots> = concat (map (\<lambda>i. replicate (es ! i) (if i = 0 then 0 else off i)) [0..<length es])"
    using es_ne by (rule shift_blocks)
  also have "map (\<lambda>i. replicate (es ! i) (if i = 0 then 0 else off i)) [0..<length es] =
             map (\<lambda>i. replicate (es ! i) (off i)) [0..<B]"
    by (rule map_cong) (auto simp: len off_def)
  finally have step4:
    "tf_pad_front (hd es) (concat (map (\<lambda>i. replicate (tl es ! i) (off (Suc i))) [0..<B - 1])) =
     concat (map (\<lambda>i. replicate (es ! i) (off i)) [0..<B])" .
  \<comment> \<open>the addition\<close>
  have "merge_dims ps = concat (map (\<lambda>i. ps ! i) [0..<B])"
    unfolding merge_dims_def by (subst concat_conv_nth) (simp add: len)
  moreover have "\<forall>i < B. es ! i = length (ps ! i)" using es_nth by blast
  ultimately have "add_increment (merge_dims ps) (concat (map (\<lambda>i. replicate (es ! i) (off i)) [0..<B])) =
        Inr (concat (map (\<lambda>i. shift_pairs (off i) (ps ! i)) [0..<B]))"
    by (simp only: add_increment_blocks)
  also have "map (\<lambda>i. shift_pairs (off i) (ps ! i)) [0..<B] =
             map (\<lambda>i. shift_pairs (node_offset graphs i) (snd (snd (graphs ! i)))) [0..<length graphs]"
    by (rule map_cong) (simp_all add: off ps_nth B_def)
  finally have step5:
    "add_increment (merge_dims ps) (concat (map (\<lambda>i. replicate (es ! i) (off i)) [0..<B])) =
     Inr (merged_pairs graphs)"
    by (simp add: merged_pairs_def)
  have "prepare_batch (batch_of graphs) y =
     (case tf_repeat (tf_range (length ns)) ns of
         Inl e \<Rightarrow> Inl e
       | Inr atom_partition_indices \<Rightarrow>
      (case tf_repeat (butlast (tf_range (length ns))) (tl es) of
         Inl e \<Rightarrow> Inl e
       | Inr bond_partition_indices \<Rightarrow>
      (case tf_gather (tf_cumsum (butlast ns)) bond_partition_indices of
         Inl e \<Rightarrow> Inl e
       | Inr gathered \<Rightarrow>
      (case es of
         [] \<Rightarrow> Inl InvalidArgumentError
       | num_bonds0 # _ \<Rightarrow>
      (case add_increment (merge_dims ps) (tf_pad_front num_bonds0 gathered) of
         Inl e \<Rightarrow> Inl e
       | Inr pair_indices' \<Rightarrow>
           Inr ((to_tensor (merge_dims (map (\<lambda>(a, b, p). a) graphs)),
                 to_tensor (merge_dims (map (\<lambda>(a, b, p). b) graphs)), pair_indices',
                 atom_partition_indices), y))))))"
    unfolding prepare_batch_def batch_of_def ns_def es_def ps_def
    by (simp only: prod.case Let_def)
  also have "\<dots> = Inr ((to_tensor (concat (map (\<lambda>(a, b, p). a) graphs)),
           to_tensor (concat (map (\<lambda>(a, b, p). b) graphs)),
           merged_pairs graphs, membership graphs), y)"
    by (simp only: step1 step2 step3 list.case_eq_if es_ne if_False step4 step5 [unfolded merge_dims_def] sum.case
          merge_dims_def)
  finally show ?thesis .
qed

lemma sum_list_take_upt:
  "i \<le> length xs \<Longrightarrow> sum_list (map f (take i xs)) = (\<Sum>t\<leftarrow>[0..<i]. f (xs ! t))"
  by (induction i) (simp_all add: take_Suc_conv_app_nth)

lemma sum_list_take_le: "sum_list (take k (xs :: nat list)) \<le> sum_list xs"
proof -
  have "sum_list (take k xs) + sum_list (drop k xs) = sum_list (take k xs @ drop k xs)"
    by (simp only: sum_list_append)
  then have "sum_list (take k xs) + sum_list (drop k xs) = sum_list xs"
    by (simp only: append_take_drop_id)
  then show ?thesis by linarith
qed

lemma node_offset_Suc:
  "i < length graphs \<Longrightarrow>
   node_offset graphs (Suc i) = node_offset graphs i + length (fst (graphs ! i))"
  by (simp add: node_offset_def take_Suc_conv_app_nth case_prod_unfold)

lemma node_offset_total:
  "node_offset graphs (length graphs) = length (concat (map (\<lambda>(a, b, p). a) graphs))"
  by (simp add: node_offset_def length_concat comp_def case_prod_unfold)

lemma node_offset_le_total:
  "node_offset graphs i \<le> length (concat (map (\<lambda>(a, b, p). a) graphs))"
proof -
  have "node_offset graphs i = sum_list (take i (map (\<lambda>(a, b, p). length a) graphs))"
    by (simp add: node_offset_def take_map)
  also have "\<dots> \<le> sum_list (map (\<lambda>(a, b, p). length a) graphs)"
    by (rule sum_list_take_le)
  also have "\<dots> = length (concat (map (\<lambda>(a, b, p). a) graphs))"
    by (simp add: length_concat comp_def case_prod_unfold)
  finally show ?thesis .
qed

lemma concat_upt_split:
  assumes "i < k"
  shows "concat (map F [0..<k]) =
         concat (map F [0..<i]) @ F i @ concat (map F [Suc i..<k])"
proof -
  have "[0..<k] = [0..<i] @ i # [Suc i..<k]"
    using assms by (metis less_imp_le_nat upt_add_eq_append upt_conv_Cons le_add_diff_inverse zero_le add_0)
  then show ?thesis by simp
qed

lemma length_concat_upt:
  "length (concat (map F [0..<i])) = (\<Sum>t\<leftarrow>[0..<i]. length (F t))"
  by (simp add: length_concat comp_def)

lemma nth_concat_upt:
  assumes "i < k" and "j < length (F i)"
  shows "concat (map F [0..<k]) ! ((\<Sum>t\<leftarrow>[0..<i]. length (F t)) + j) = F i ! j"
  by (simp only: concat_upt_split [OF assms(1)] nth_append_length_plus
      length_concat_upt [symmetric]) (simp add: nth_append assms(2))

lemma node_offset_upt:
  "i \<le> length graphs \<Longrightarrow>
   node_offset graphs i = (\<Sum>t\<leftarrow>[0..<i]. length (replicate (length (fst (graphs ! t))) (c t)))"
  by (simp add: node_offset_def sum_list_take_upt case_prod_unfold)

lemma edge_offset_upt:
  "i \<le> length graphs \<Longrightarrow>
   edge_offset graphs i =
     (\<Sum>t\<leftarrow>[0..<i]. length (shift_pairs (node_offset graphs t) (snd (snd (graphs ! t)))))"
  by (simp add: edge_offset_def sum_list_take_upt case_prod_unfold shift_pairs_def)

lemma membership_nth:
  assumes "i < length graphs" and "t < length (fst (graphs ! i))"
  shows "membership graphs ! (node_offset graphs i + t) = int i"
proof -
  let ?F = "\<lambda>i. replicate (length (fst (graphs ! i))) (int i)"
  have "membership graphs ! ((\<Sum>t\<leftarrow>[0..<i]. length (?F t)) + t) = ?F i ! t"
    unfolding membership_def using assms by (intro nth_concat_upt) simp_all
  moreover have "node_offset graphs i = (\<Sum>t\<leftarrow>[0..<i]. length (?F t))"
    using assms(1) by (intro node_offset_upt) simp
  ultimately show ?thesis using assms(2) by simp
qed

lemma merged_pairs_nth:
  assumes "i < length graphs" and "j < length (snd (snd (graphs ! i)))"
  shows "merged_pairs graphs ! (edge_offset graphs i + j) =
         (fst (snd (snd (graphs ! i)) ! j) + int (node_offset graphs i),
          snd (snd (snd (graphs ! i)) ! j) + int (node_offset graphs i))"
proof -
  let ?F = "\<lambda>i. shift_pairs (node_offset graphs i) (snd (snd (graphs ! i)))"
  have "merged_pairs graphs ! ((\<Sum>t\<leftarrow>[0..<i]. length (?F t)) + j) = ?F i ! j"
    unfolding merged_pairs_def using assms by (intro nth_concat_upt) (simp_all add: shift_pairs_def)
  moreover have "edge_offset graphs i = (\<Sum>t\<leftarrow>[0..<i]. length (?F t))"
    using assms(1) by (intro edge_offset_upt) simp
  ultimately show ?thesis
    using assms(2) by (simp add: shift_pairs_def case_prod_unfold)
qed

lemma length_merged_pairs:
  "length (merged_pairs graphs) = edge_offset graphs (length graphs)"
  by (simp add: edge_offset_upt length_concat_upt merged_pairs_def)

lemma length_membership:
  "length (membership graphs) = length (concat (map (\<lambda>(a, b, p). a) graphs))"
proof -
  have "length (membership graphs) = node_offset graphs (length graphs)"
    unfolding membership_def
    by (simp only: length_concat_upt node_offset_upt [OF order_refl, where c = int])
  then show ?thesis by (simp add: node_offset_total)
qed

lemma local_pair:
  assumes "\<forall>g \<in> set graphs. local_indices g" "i < length graphs"
    "j < length (snd (snd (graphs ! i)))"
  shows "0 \<le> fst (snd (snd (graphs ! i)) ! j) \<and>
         fst (snd (snd (graphs ! i)) ! j) < int (length (fst (graphs ! i))) \<and>
         0 \<le> snd (snd (snd (graphs ! i)) ! j) \<and>
         snd (snd (snd (graphs ! i)) ! j) < int (length (fst (graphs ! i)))"
proof -
  from assms(1,2) have "local_indices (graphs ! i)" by simp
  then have "list_all (\<lambda>(s, d). 0 \<le> s \<and> s < int (length (fst (graphs ! i))) \<and> 0 \<le> d \<and>
                d < int (length (fst (graphs ! i)))) (snd (snd (graphs ! i)))"
    by (simp add: local_indices_def case_prod_unfold)
  with assms(3) show ?thesis
    by (simp add: list_all_length case_prod_unfold)
qed

lemma merged_pairs_unfold:
  "merged_pairs graphs =
     concat (map (\<lambda>i. case graphs ! i of (a, b, p) \<Rightarrow>
                     map (\<lambda>(s, d). (s + int (node_offset graphs i), d + int (node_offset graphs i))) p)
               [0..<length graphs])"
  by (simp add: merged_pairs_def shift_pairs_def case_prod_unfold)

lemma merged_pairs_int64:
  assumes "int64_indices graphs"
  shows "list_all (\<lambda>(s, d). int64 s \<and> int64 d) (merged_pairs graphs)"
proof -
  have "int64 (fst x) \<and> int64 (snd x)" if x: "x \<in> set (merged_pairs graphs)" for x
  proof -
    from x obtain i where i: "i < length graphs"
      and xi: "x \<in> set (shift_pairs (node_offset graphs i) (snd (snd (graphs ! i))))"
      by (auto simp: merged_pairs_def)
    from xi obtain s d where sd: "(s, d) \<in> set (snd (snd (graphs ! i)))"
      and xe: "x = (s + int (node_offset graphs i), d + int (node_offset graphs i))"
      by (auto simp: shift_pairs_def)
    from assms i have "list_all (\<lambda>(s, d). int64 s \<and> int64 d
                                  \<and> int64 (s + int (node_offset graphs i))
                                  \<and> int64 (d + int (node_offset graphs i)))
                         (snd (snd (graphs ! i)))"
      by (simp add: int64_indices_def list_all_iff case_prod_unfold)
    with sd have "int64 (s + int (node_offset graphs i)) \<and> int64 (d + int (node_offset graphs i))"
      by (auto simp: list_all_iff)
    with xe show ?thesis by simp
  qed
  then show ?thesis by (simp add: list_all_iff case_prod_unfold)
qed

text \<open>
  C2. For a batch of graphs, \<open>prepare_batch\<close> adds to both endpoints of every edge of
  graph \<open>i\<close> the offset \<open>node_offset graphs i\<close>, the node counts of the graphs before
  \<open>i\<close> summed (zero for the first graph), and concatenates the node features, the
  edge features and the shifted index pairs in batch order. The batch has at least one
  graph; the rows of the node features have one length and the rows of the edge features
  have one length, so that \<open>to_tensor\<close> pads nothing; and the counts, offsets and
  indices stay within the 64-bit integers, so that every sum is the one the code computes
  and every index of the result is a 64-bit integer.
\<close>

theorem prepare_batch_offsets:
  assumes "graphs \<noteq> []" and "list_all edge_shaped graphs"
    and "uniform_rows (concat (map (\<lambda>(a, b, p). a) graphs))"
    and "uniform_rows (concat (map (\<lambda>(a, b, p). b) graphs))"
    and "int64_indices graphs"
  shows "prepare_batch (batch_of graphs) y =
      Inr ((concat (map (\<lambda>(a, b, p). a) graphs), concat (map (\<lambda>(a, b, p). b) graphs),
            concat (map (\<lambda>i. case graphs ! i of (a, b, p) \<Rightarrow>
                     map (\<lambda>(s, d). (s + int (node_offset graphs i), d + int (node_offset graphs i))) p)
               [0..<length graphs]),
            concat (map (\<lambda>i. replicate (length (fst (graphs ! i))) (int i)) [0..<length graphs])), y)
     \<and> node_offset graphs 0 = 0
     \<and> (\<forall>i < length graphs.
           node_offset graphs (Suc i) = node_offset graphs i + length (fst (graphs ! i)))
     \<and> list_all (\<lambda>(s, d). int64 s \<and> int64 d)
          (concat (map (\<lambda>i. case graphs ! i of (a, b, p) \<Rightarrow>
                     map (\<lambda>(s, d). (s + int (node_offset graphs i), d + int (node_offset graphs i))) p)
               [0..<length graphs]))"
proof -
  have sh: "\<forall>g \<in> set graphs. edge_shaped g" using assms(2) by (simp add: list_all_iff)
  have "prepare_batch (batch_of graphs) y =
     Inr ((concat (map (\<lambda>(a, b, p). a) graphs), concat (map (\<lambda>(a, b, p). b) graphs),
           merged_pairs graphs, membership graphs), y)"
    using prepare_batch_eq [OF assms(1) sh, of y]
    by (simp only: to_tensor_uniform [OF assms(3)] to_tensor_uniform [OF assms(4)])
  moreover have "node_offset graphs 0 = 0" by (simp add: node_offset_def)
  moreover have "\<forall>i < length graphs.
           node_offset graphs (Suc i) = node_offset graphs i + length (fst (graphs ! i))"
    by (simp add: node_offset_Suc)
  moreover have "list_all (\<lambda>(s, d). int64 s \<and> int64 d) (merged_pairs graphs)"
    using assms(5) by (rule merged_pairs_int64)
  ultimately show ?thesis
    by (simp only: merged_pairs_unfold [symmetric] membership_def [symmetric] simp_thms)
qed

theorem prepare_batch_offsets_example:
  "[graph_A, graph_B, graph_C] \<noteq> [] \<and> list_all edge_shaped [graph_A, graph_B, graph_C] \<and>
   uniform_rows (concat (map (\<lambda>(a, b, p). a) [graph_A, graph_B, graph_C])) \<and>
   uniform_rows (concat (map (\<lambda>(a, b, p). b) [graph_A, graph_B, graph_C])) \<and>
   int64_indices [graph_A, graph_B, graph_C] \<and>
   prepare_batch (batch_of [graph_A, graph_B, graph_C]) [1, 0, 1 :: int] =
     Inr (([[1, 0], [0, 1], [1, 1], [0, 1], [1, 1], [1, 0]],
           [[1], [0], [1], [0], [1], [1], [1], [1]],
           [(0, 0), (0, 1), (1, 1), (1, 0), (2, 2), (3, 3), (4, 4), (5, 5)],
           [0, 0, 1, 2, 2, 2]), [1, 0, 1])"
proof -
  have ne: "[graph_A, graph_B, graph_C] \<noteq> []" by simp
  have sh: "list_all edge_shaped [graph_A, graph_B, graph_C]"
    by (simp add: edge_shaped_def graph_A_def graph_B_def graph_C_def)
  have ua: "uniform_rows (concat (map (\<lambda>(a, b, p). a) [graph_A, graph_B, graph_C]))"
    by (simp add: uniform_rows_def graph_A_def graph_B_def graph_C_def)
  have ub: "uniform_rows (concat (map (\<lambda>(a, b, p). b) [graph_A, graph_B, graph_C]))"
    by (simp add: uniform_rows_def graph_A_def graph_B_def graph_C_def)
  have up: "[0..<length [graph_A, graph_B, graph_C]] = [0, 1, 2]"
    by (simp add: upt_rec)
  have i64: "int64_indices [graph_A, graph_B, graph_C]"
    unfolding int64_indices_def up
    by (simp add: node_offset_def int64_def graph_A_def graph_B_def graph_C_def)
  from prepare_batch_offsets [OF ne sh ua ub i64, of "[1, 0, 1 :: int]"]
  have "prepare_batch (batch_of [graph_A, graph_B, graph_C]) [1, 0, 1 :: int] =
     Inr (([[1, 0], [0, 1], [1, 1], [0, 1], [1, 1], [1, 0]],
           [[1], [0], [1], [0], [1], [1], [1], [1]],
           [(0, 0), (0, 1), (1, 1), (1, 0), (2, 2), (3, 3), (4, 4), (5, 5)],
           [0, 0, 1, 2, 2, 2]), [1, 0, 1])"
    unfolding up
    by (simp add: node_offset_def graph_A_def graph_B_def graph_C_def)
  with ne sh ua ub i64 show ?thesis by blast
qed

lemma sorted_blocks:
  fixes F :: "nat \<Rightarrow> int list" and L :: "nat \<Rightarrow> int"
  assumes "\<forall>i < k. sorted (F i)"
    and "\<forall>i < k. \<forall>x \<in> set (F i). L i \<le> x \<and> x \<le> L (Suc i)"
    and "\<forall>i < k. L i \<le> L (Suc i)"
  shows "sorted (concat (map F [0..<k])) \<and> (\<forall>x \<in> set (concat (map F [0..<k])). x \<le> L k)"
  using assms
proof (induction k)
  case 0
  show ?case by simp
next
  case (Suc k)
  have ih: "sorted (concat (map F [0..<k]))" "\<forall>x \<in> set (concat (map F [0..<k])). x \<le> L k"
    using Suc.IH Suc.prems by simp_all
  have blk: "sorted (F k)" "\<forall>x \<in> set (F k). L k \<le> x \<and> x \<le> L (Suc k)" "L k \<le> L (Suc k)"
    using Suc.prems by simp_all
  have "sorted (concat (map F [0..<k]) @ F k)"
    using ih blk(1,2) by (fastforce simp: sorted_append)
  moreover have "\<forall>x \<in> set (concat (map F [0..<k]) @ F k). x \<le> L (Suc k)"
    using ih(2) blk(2,3) by fastforce
  ultimately show ?case by simp
qed

lemma count_list_replicate_int [simp]:
  "count_list (replicate n x) y = (if x = y then n else 0)"
  by (induction n) auto

lemma count_list_blocks:
  "count_list (concat (map (\<lambda>i. replicate (r i) (int i)) [0..<k])) (int i) =
     (if i < k then r i else 0)"
  by (induction k) (auto simp: less_Suc_eq)

lemma membership_sorted: "sorted (membership graphs)"
proof -
  let ?F = "\<lambda>i. replicate (length (fst (graphs ! i))) (int i)"
  have "sorted (concat (map ?F [0..<length graphs])) \<and>
        (\<forall>x \<in> set (concat (map ?F [0..<length graphs])). x \<le> int (length graphs))"
    by (rule sorted_blocks [where L = int]) auto
  then show ?thesis by (simp add: membership_def)
qed

lemma membership_set:
  assumes "list_all (\<lambda>(a, b, p). a \<noteq> []) graphs"
  shows "set (membership graphs) = int ` {0..<length graphs}"
proof -
  have ne: "0 < length (fst (graphs ! i))" if "i < length graphs" for i
    using assms that by (simp add: list_all_length case_prod_unfold)
  have "set (membership graphs) = (\<Union>i \<in> {0..<length graphs}. set (replicate (length (fst (graphs ! i))) (int i)))"
    by (simp add: membership_def)
  also have "\<dots> = (\<Union>i \<in> {0..<length graphs}. {int i})"
    using ne by (intro SUP_cong) auto
  also have "\<dots> = int ` {0..<length graphs}" by auto
  finally show ?thesis .
qed

text \<open>
  C8. For a batch of \<open>B\<close> non-empty graphs, the membership array of \<open>prepare_batch\<close>
  is non-decreasing, its values are exactly \<open>0, ..., B - 1\<close>, and it is the index \<open>i\<close>
  repeated \<open>n\<^sub>i\<close> times for \<open>i = 0, ..., B - 1\<close> in order, so \<open>i\<close> occurs \<open>n\<^sub>i\<close> times.
\<close>

theorem prepare_batch_membership:
  assumes "graphs \<noteq> []" and "list_all edge_shaped graphs"
    and "list_all (\<lambda>(a, b, p). a \<noteq> []) graphs"
  shows "\<exists>af bf ps m. prepare_batch (batch_of graphs) y = Inr ((af, bf, ps, m), y)
     \<and> sorted m
     \<and> set m = int ` {0..<length graphs}
     \<and> m = concat (map (\<lambda>i. replicate (length (fst (graphs ! i))) (int i)) [0..<length graphs])
     \<and> (\<forall>i < length graphs. count_list m (int i) = length (fst (graphs ! i)))"
proof -
  have "\<forall>g \<in> set graphs. edge_shaped g" using assms(2) by (simp add: list_all_iff)
  from prepare_batch_eq [OF assms(1) this, of y]
  have "prepare_batch (batch_of graphs) y =
     Inr ((to_tensor (concat (map (\<lambda>(a, b, p). a) graphs)),
           to_tensor (concat (map (\<lambda>(a, b, p). b) graphs)),
           merged_pairs graphs, membership graphs), y)" .
  moreover have "sorted (membership graphs)" by (rule membership_sorted)
  moreover have "set (membership graphs) = int ` {0..<length graphs}"
    using assms(3) by (rule membership_set)
  moreover have "membership graphs =
      concat (map (\<lambda>i. replicate (length (fst (graphs ! i))) (int i)) [0..<length graphs])"
    by (simp add: membership_def)
  moreover have "\<forall>i < length graphs. count_list (membership graphs) (int i) = length (fst (graphs ! i))"
    by (simp add: membership_def count_list_blocks)
  ultimately show ?thesis by blast
qed

theorem prepare_batch_membership_example:
  "[graph_A, graph_B, graph_C] \<noteq> [] \<and> list_all edge_shaped [graph_A, graph_B, graph_C] \<and>
   list_all (\<lambda>(a, b, p). a \<noteq> []) [graph_A, graph_B, graph_C] \<and>
   (\<exists>af bf ps. prepare_batch (batch_of [graph_A, graph_B, graph_C]) [1, 0, 1 :: int] =
        Inr ((af, bf, ps, [0, 0, 1, 2, 2, 2]), [1, 0, 1])) \<and>
   sorted [0, 0, 1, 2, 2, 2 :: int] \<and> set [0, 0, 1, 2, 2, 2 :: int] = {0, 1, 2}"
proof -
  have ne: "[graph_A, graph_B, graph_C] \<noteq> []" by simp
  have sh: "list_all edge_shaped [graph_A, graph_B, graph_C]"
    by (simp add: edge_shaped_def graph_A_def graph_B_def graph_C_def)
  have nn: "list_all (\<lambda>(a, b, p). a \<noteq> []) [graph_A, graph_B, graph_C]"
    by (simp add: graph_A_def graph_B_def graph_C_def)
  have up: "[0..<length [graph_A, graph_B, graph_C]] = [0, 1, 2]"
    by (simp add: upt_rec)
  have m: "concat (map (\<lambda>i. replicate (length (fst ([graph_A, graph_B, graph_C] ! i))) (int i))
             [0..<length [graph_A, graph_B, graph_C]]) = [0, 0, 1, 2, 2, 2]"
    unfolding up by (simp add: graph_A_def graph_B_def graph_C_def)
  from prepare_batch_membership [OF ne sh nn, of "[1, 0, 1 :: int]"] obtain af bf ps m where
    r: "prepare_batch (batch_of [graph_A, graph_B, graph_C]) [1, 0, 1 :: int] =
          Inr ((af, bf, ps, m), [1, 0, 1])"
       "sorted m" "set m = int ` {0..<length [graph_A, graph_B, graph_C]}"
       "m = concat (map (\<lambda>i. replicate (length (fst ([graph_A, graph_B, graph_C] ! i))) (int i))
             [0..<length [graph_A, graph_B, graph_C]])"
    by blast
  have m': "m = [0, 0, 1, 2, 2, 2]" using r(4) m by simp
  have "\<exists>af bf ps. prepare_batch (batch_of [graph_A, graph_B, graph_C]) [1, 0, 1 :: int] =
        Inr ((af, bf, ps, [0, 0, 1, 2, 2, 2]), [1, 0, 1])"
    using r(1) m' by blast
  moreover have "sorted [0, 0, 1, 2, 2, 2 :: int]" using r(2) m' by simp
  moreover have "set [0, 0, 1, 2, 2, 2 :: int] = {0, 1, 2}" by auto
  ultimately show ?thesis using ne sh nn by blast
qed

lemma merged_pairs_member:
  assumes "x \<in> set (merged_pairs graphs)"
  shows "\<exists>i < length graphs. \<exists>j < length (snd (snd (graphs ! i))).
           merged_pairs graphs ! (edge_offset graphs i + j) = x"
proof -
  let ?F = "\<lambda>i. shift_pairs (node_offset graphs i) (snd (snd (graphs ! i)))"
  from assms obtain i where i: "i < length graphs" and x: "x \<in> set (?F i)"
    by (auto simp: merged_pairs_def)
  from x obtain j where j: "j < length (?F i)" and nth: "?F i ! j = x"
    by (auto simp: in_set_conv_nth)
  have "merged_pairs graphs ! ((\<Sum>t\<leftarrow>[0..<i]. length (?F t)) + j) = ?F i ! j"
    unfolding merged_pairs_def using i j by (intro nth_concat_upt)
  moreover have "edge_offset graphs i = (\<Sum>t\<leftarrow>[0..<i]. length (?F t))"
    using i by (intro edge_offset_upt) simp
  ultimately have "merged_pairs graphs ! (edge_offset graphs i + j) = x"
    using nth by simp
  moreover have "j < length (snd (snd (graphs ! i)))"
    using j by (simp add: shift_pairs_def)
  ultimately show ?thesis using i by blast
qed

text \<open>
  C3. For a batch of graphs whose index pairs are valid local node indices, every edge
  of the merged batch references rows of the merged node matrix, and both endpoints of
  the \<open>j\<close>-th edge of graph \<open>i\<close> lie in the node range of graph \<open>i\<close>,
  \<open>node_offset graphs i \<le> s, d < node_offset graphs i + n\<^sub>i\<close>; the membership
  array maps both endpoints to \<open>i\<close>. So every edge of the output joins two rows of the
  merged node matrix that belong to the same graph.
\<close>

theorem prepare_batch_indices_valid:
  assumes "graphs \<noteq> []" and "list_all edge_shaped graphs" and "list_all local_indices graphs"
  shows "\<exists>af bf ps m. prepare_batch (batch_of graphs) y = Inr ((af, bf, ps, m), y)
     \<and> length m = length af
     \<and> length ps = edge_offset graphs (length graphs)
     \<and> (\<forall>i < length graphs. \<forall>j < length (snd (snd (graphs ! i))).
          (case ps ! (edge_offset graphs i + j) of (s, d) \<Rightarrow>
             0 \<le> s \<and> s < int (length af) \<and> 0 \<le> d \<and> d < int (length af)
             \<and> int (node_offset graphs i) \<le> s
             \<and> s < int (node_offset graphs i + length (fst (graphs ! i)))
             \<and> int (node_offset graphs i) \<le> d
             \<and> d < int (node_offset graphs i + length (fst (graphs ! i)))
             \<and> m ! nat s = int i \<and> m ! nat d = int i))
     \<and> list_all (\<lambda>(s, d). 0 \<le> s \<and> s < int (length af) \<and> 0 \<le> d \<and> d < int (length af)
                    \<and> m ! nat s = m ! nat d) ps"
proof -
  have sh: "\<forall>g \<in> set graphs. edge_shaped g" using assms(2) by (simp add: list_all_iff)
  have lo: "\<forall>g \<in> set graphs. local_indices g" using assms(3) by (simp add: list_all_iff)
  let ?af = "to_tensor (concat (map (\<lambda>(a, b, p). a) graphs))"
  have eq: "prepare_batch (batch_of graphs) y =
     Inr ((?af, to_tensor (concat (map (\<lambda>(a, b, p). b) graphs)),
           merged_pairs graphs, membership graphs), y)"
    by (rule prepare_batch_eq [OF assms(1) sh])
  have edge: "(case merged_pairs graphs ! (edge_offset graphs i + j) of (s, d) \<Rightarrow>
             0 \<le> s \<and> s < int (length ?af) \<and> 0 \<le> d \<and> d < int (length ?af)
             \<and> int (node_offset graphs i) \<le> s
             \<and> s < int (node_offset graphs i + length (fst (graphs ! i)))
             \<and> int (node_offset graphs i) \<le> d
             \<and> d < int (node_offset graphs i + length (fst (graphs ! i)))
             \<and> membership graphs ! nat s = int i \<and> membership graphs ! nat d = int i)"
    if i: "i < length graphs" and j: "j < length (snd (snd (graphs ! i)))" for i j
  proof -
    define s0 where "s0 = fst (snd (snd (graphs ! i)) ! j)"
    define d0 where "d0 = snd (snd (snd (graphs ! i)) ! j)"
    define n where "n = length (fst (graphs ! i))"
    define off where "off = node_offset graphs i"
    have loc: "0 \<le> s0" "s0 < int n" "0 \<le> d0" "d0 < int n"
      using local_pair [OF lo i j] by (simp_all add: s0_def d0_def n_def)
    have nth: "merged_pairs graphs ! (edge_offset graphs i + j) = (s0 + int off, d0 + int off)"
      using merged_pairs_nth [OF i j] by (simp add: s0_def d0_def off_def)
    have "node_offset graphs (Suc i) \<le> length ?af"
      using node_offset_le_total [of graphs "Suc i"] by simp
    then have tot: "off + n \<le> length ?af"
      using node_offset_Suc [OF i] by (simp add: off_def n_def)
    have ms: "membership graphs ! (off + nat s0) = int i"
      unfolding off_def using i loc(1,2) by (intro membership_nth) (simp_all add: n_def)
    have md: "membership graphs ! (off + nat d0) = int i"
      unfolding off_def using i loc(3,4) by (intro membership_nth) (simp_all add: n_def)
    have ns: "nat (s0 + int off) = off + nat s0" using loc(1) by simp
    have nd: "nat (d0 + int off) = off + nat d0" using loc(3) by simp
    show ?thesis
      unfolding nth prod.case ns nd off_def [symmetric] n_def [symmetric]
      using loc tot ms md by simp
  qed
  have all: "\<forall>i < length graphs. \<forall>j < length (snd (snd (graphs ! i))).
          (case merged_pairs graphs ! (edge_offset graphs i + j) of (s, d) \<Rightarrow>
             0 \<le> s \<and> s < int (length ?af) \<and> 0 \<le> d \<and> d < int (length ?af)
             \<and> int (node_offset graphs i) \<le> s
             \<and> s < int (node_offset graphs i + length (fst (graphs ! i)))
             \<and> int (node_offset graphs i) \<le> d
             \<and> d < int (node_offset graphs i + length (fst (graphs ! i)))
             \<and> membership graphs ! nat s = int i \<and> membership graphs ! nat d = int i)"
    by (intro allI impI) (rule edge)
  have len1: "length (membership graphs) = length ?af"
    using length_membership [of graphs] by simp
  have len2: "length (merged_pairs graphs) = edge_offset graphs (length graphs)"
    by (rule length_merged_pairs)
  have every: "list_all (\<lambda>(s, d). 0 \<le> s \<and> s < int (length ?af) \<and> 0 \<le> d
      \<and> d < int (length ?af) \<and> membership graphs ! nat s = membership graphs ! nat d)
      (merged_pairs graphs)"
  proof -
    have "case x of (s, d) \<Rightarrow> 0 \<le> s \<and> s < int (length ?af) \<and> 0 \<le> d
      \<and> d < int (length ?af) \<and> membership graphs ! nat s = membership graphs ! nat d"
      if "x \<in> set (merged_pairs graphs)" for x
    proof -
      from merged_pairs_member [OF that] obtain i j where
        ij: "i < length graphs" "j < length (snd (snd (graphs ! i)))"
          "merged_pairs graphs ! (edge_offset graphs i + j) = x"
        by blast
      from edge [OF ij(1,2)] show ?thesis
        by (simp only: ij(3)) (simp add: case_prod_unfold)
    qed
    then show ?thesis by (simp add: list_all_iff)
  qed
  show ?thesis
    by (intro exI conjI, rule eq, rule len1, rule len2, rule all, rule every)
qed

theorem prepare_batch_indices_valid_example:
  "[graph_A, graph_B, graph_C] \<noteq> [] \<and> list_all edge_shaped [graph_A, graph_B, graph_C] \<and>
   list_all local_indices [graph_A, graph_B, graph_C] \<and>
   (\<exists>af bf ps m. prepare_batch (batch_of [graph_A, graph_B, graph_C]) [1, 0, 1 :: int] =
        Inr ((af, bf, ps, m), [1, 0, 1])
      \<and> length m = length af
      \<and> (case ps ! (edge_offset [graph_A, graph_B, graph_C] 2 + 1) of (s, d) \<Rightarrow>
            0 \<le> s \<and> s < int (length af) \<and> 0 \<le> d \<and> d < int (length af)
            \<and> 3 \<le> s \<and> s < 6 \<and> 3 \<le> d \<and> d < 6 \<and> m ! nat s = 2 \<and> m ! nat d = 2))"
proof -
  let ?G = "[graph_A, graph_B, graph_C]"
  have ne: "?G \<noteq> []" by simp
  have sh: "list_all edge_shaped ?G"
    by (simp add: edge_shaped_def graph_A_def graph_B_def graph_C_def)
  have lo: "list_all local_indices ?G"
    by (simp add: local_indices_def graph_A_def graph_B_def graph_C_def)
  have i: "2 < length ?G" by simp
  have j: "1 < length (snd (snd (?G ! 2)))" by (simp add: graph_C_def)
  have off: "int (node_offset ?G 2) = 3" "int (node_offset ?G 2 + length (fst (?G ! 2))) = 6"
    by (simp_all add: node_offset_def graph_A_def graph_B_def graph_C_def)
  from prepare_batch_indices_valid [OF ne sh lo, of "[1, 0, 1 :: int]"] obtain af bf ps m where
    r: "prepare_batch (batch_of ?G) [1, 0, 1 :: int] = Inr ((af, bf, ps, m), [1, 0, 1])"
       "length m = length af"
       "\<forall>i < length ?G. \<forall>j < length (snd (snd (?G ! i))).
          (case ps ! (edge_offset ?G i + j) of (s, d) \<Rightarrow>
             0 \<le> s \<and> s < int (length af) \<and> 0 \<le> d \<and> d < int (length af)
             \<and> int (node_offset ?G i) \<le> s
             \<and> s < int (node_offset ?G i + length (fst (?G ! i)))
             \<and> int (node_offset ?G i) \<le> d
             \<and> d < int (node_offset ?G i + length (fst (?G ! i)))
             \<and> m ! nat s = int i \<and> m ! nat d = int i)"
    by (elim exE conjE)
  from r(3) [rule_format, OF i j]
  have c: "(case ps ! (edge_offset ?G 2 + 1) of (s, d) \<Rightarrow>
            0 \<le> s \<and> s < int (length af) \<and> 0 \<le> d \<and> d < int (length af)
            \<and> 3 \<le> s \<and> s < 6 \<and> 3 \<le> d \<and> d < 6 \<and> m ! nat s = 2 \<and> m ! nat d = 2)"
    unfolding off by simp
  show ?thesis
    by (intro conjI exI) (rule ne sh lo r(1) r(2) c)+
qed

lemma emitted_pairs_src:
  "sorted (map fst (emitted_pairs molecule)) \<and>
   (\<forall>x \<in> set (map fst (emitted_pairs molecule)). 0 \<le> x \<and> x < int (length (mol_atoms molecule)))"
proof -
  let ?n = "length (mol_atoms molecule)"
  let ?F = "\<lambda>i. map fst ((int i, int i) # map (\<lambda>j. (int i, int j)) (GetNeighbors molecule i))"
  have F: "?F i = replicate (Suc (length (GetNeighbors molecule i))) (int i)" for i
    by (simp add: comp_def map_replicate_const)
  have c: "map fst (emitted_pairs molecule) = concat (map ?F [0..<?n])"
    by (simp add: emitted_pairs_def map_concat comp_def)
  have p1: "\<forall>i < ?n. sorted (?F i)"
    by (simp only: F; simp)
  have p2: "\<forall>i < ?n. \<forall>x \<in> set (?F i). int i \<le> x \<and> x \<le> int (Suc i)"
    by (simp only: F; simp)
  have p3: "\<forall>i < ?n. int i \<le> int (Suc i)"
    by simp
  have "sorted (concat (map ?F [0..<?n])) \<and>
        (\<forall>x \<in> set (concat (map ?F [0..<?n])). x \<le> int ?n)"
    by (rule sorted_blocks [of ?n ?F int, OF p1 p2 p3])
  moreover have "\<forall>x \<in> set (concat (map ?F [0..<?n])). 0 \<le> x \<and> x < int ?n"
    by (simp only: F) auto
  ultimately show ?thesis by (simp only: c; blast)
qed

lemma merged_pairs_src_sorted:
  assumes "\<forall>i < length graphs. sorted (map fst (snd (snd (graphs ! i))))"
    and "\<forall>i < length graphs. \<forall>x \<in> set (map fst (snd (snd (graphs ! i)))).
           0 \<le> x \<and> x \<le> int (length (fst (graphs ! i)))"
  shows "sorted (map fst (merged_pairs graphs))"
proof -
  let ?F = "\<lambda>i. map (\<lambda>x. x + int (node_offset graphs i)) (map fst (snd (snd (graphs ! i))))"
  let ?L = "\<lambda>i. int (node_offset graphs i)"
  have c: "map fst (merged_pairs graphs) = concat (map ?F [0..<length graphs])"
    by (simp add: merged_pairs_def shift_pairs_def map_concat comp_def case_prod_unfold)
  have s: "\<forall>i < length graphs. sorted (?F i)"
    using assms(1) by (simp add: sorted_map)
  have b: "\<forall>i < length graphs. \<forall>x \<in> set (?F i). ?L i \<le> x \<and> x \<le> ?L (Suc i)"
    using assms(2) by (auto simp: node_offset_Suc)
  have m: "\<forall>i < length graphs. ?L i \<le> ?L (Suc i)"
    by (simp add: node_offset_Suc)
  from sorted_blocks [of "length graphs" ?F ?L, OF s b m] show ?thesis
    by (simp only: c)
qed

lemma graph_from_molecule_graph:
  "\<exists>g. graph_from_molecule molecule = Inr g
     \<and> snd (snd g) = emitted_pairs molecule
     \<and> length (fst g) = length (mol_atoms molecule)
     \<and> edge_shaped g"
  using graph_from_molecule_eq [of molecule] by (auto simp: edge_shaped_def)

text \<open>
  C10. For every batch of molecules, \<open>graph_from_molecule\<close> returns for each molecule
  the index pairs \<open>emitted_pairs\<close> (for each atom in index order its self-loop, then
  its bond edges), whose source column is non-decreasing, and one row of node features
  for each atom. \<open>prepare_batch\<close> returns for the batch of these graphs the index
  pairs of molecule \<open>i\<close> shifted by the node offset of graph \<open>i\<close>, in batch order,
  and the source column of this merged list is non-decreasing too.
\<close>

theorem source_column_sorted:
  assumes "molecules \<noteq> []"
  shows "\<exists>graphs af bf ps m.
       map graph_from_molecule molecules = map Inr graphs
     \<and> map (\<lambda>(a, b, p). p) graphs = map emitted_pairs molecules
     \<and> map (\<lambda>(a, b, p). length a) graphs = map (\<lambda>molecule. length (mol_atoms molecule)) molecules
     \<and> list_all (\<lambda>(a, b, p). sorted (map fst p)) graphs
     \<and> prepare_batch (batch_of graphs) y = Inr ((af, bf, ps, m), y)
     \<and> ps = concat (map (\<lambda>i. shift_pairs (node_offset graphs i) (emitted_pairs (molecules ! i)))
                     [0..<length molecules])
     \<and> sorted (map fst ps)"
proof -
  from graph_from_molecule_graph obtain f where
    f: "\<forall>molecule. graph_from_molecule molecule = Inr (f molecule)
          \<and> snd (snd (f molecule)) = emitted_pairs molecule
          \<and> length (fst (f molecule)) = length (mol_atoms molecule)
          \<and> edge_shaped (f molecule)"
    by metis
  define graphs where "graphs = map f molecules"
  have len: "length graphs = length molecules" by (simp add: graphs_def)
  have g1: "map graph_from_molecule molecules = map Inr graphs"
    by (simp add: graphs_def f)
  have g1': "map (\<lambda>(a, b, p). p) graphs = map emitted_pairs molecules"
    by (simp add: graphs_def f case_prod_unfold)
  have g1'': "map (\<lambda>(a, b, p). length a) graphs =
      map (\<lambda>molecule. length (mol_atoms molecule)) molecules"
    by (simp add: graphs_def f case_prod_unfold)
  have e: "snd (snd (graphs ! i)) = emitted_pairs (molecules ! i)"
    and n: "length (fst (graphs ! i)) = length (mol_atoms (molecules ! i))"
    if "i < length graphs" for i
    using that f by (simp_all add: graphs_def)
  have src: "sorted (map fst (snd (snd (graphs ! i))))"
       "\<forall>x \<in> set (map fst (snd (snd (graphs ! i)))). 0 \<le> x \<and> x \<le> int (length (fst (graphs ! i)))"
    if i: "i < length graphs" for i
  proof -
    show "sorted (map fst (snd (snd (graphs ! i))))"
      using emitted_pairs_src [of "molecules ! i"] by (simp only: e [OF i])
    show "\<forall>x \<in> set (map fst (snd (snd (graphs ! i)))). 0 \<le> x \<and> x \<le> int (length (fst (graphs ! i)))"
      using emitted_pairs_src [of "molecules ! i"] by (simp only: e [OF i] n [OF i]) force
  qed
  have g2: "list_all (\<lambda>(a, b, p). sorted (map fst p)) graphs"
    using src(1) by (simp add: list_all_length case_prod_unfold)
  have ne: "graphs \<noteq> []" using assms by (simp add: graphs_def)
  have sh: "\<forall>g \<in> set graphs. edge_shaped g" using f by (simp add: graphs_def)
  have g3: "prepare_batch (batch_of graphs) y =
     Inr ((to_tensor (concat (map (\<lambda>(a, b, p). a) graphs)),
           to_tensor (concat (map (\<lambda>(a, b, p). b) graphs)),
           merged_pairs graphs, membership graphs), y)"
    by (rule prepare_batch_eq [OF ne sh])
  have "map (\<lambda>i. shift_pairs (node_offset graphs i) (snd (snd (graphs ! i)))) [0..<length graphs] =
        map (\<lambda>i. shift_pairs (node_offset graphs i) (emitted_pairs (molecules ! i)))
          [0..<length graphs]"
    by (rule map_cong) (simp_all add: e)
  then have g4: "merged_pairs graphs =
      concat (map (\<lambda>i. shift_pairs (node_offset graphs i) (emitted_pairs (molecules ! i)))
                [0..<length molecules])"
    by (simp only: merged_pairs_def len)
  have g5: "sorted (map fst (merged_pairs graphs))"
    using src by (intro merged_pairs_src_sorted) blast+
  show ?thesis
    by (intro exI conjI, rule g1, rule g1', rule g1'', rule g2, rule g3, rule g4, rule g5)
qed

theorem source_column_sorted_example:
  "[ethanol, methane, ethanol] \<noteq> [] \<and>
   (\<exists>graphs af bf ps m.
       map graph_from_molecule [ethanol, methane, ethanol] = map Inr graphs
     \<and> map (\<lambda>(a, b, p). p) graphs = map emitted_pairs [ethanol, methane, ethanol]
     \<and> map (\<lambda>(a, b, p). length a) graphs =
         map (\<lambda>molecule. length (mol_atoms molecule)) [ethanol, methane, ethanol]
     \<and> list_all (\<lambda>(a, b, p). sorted (map fst p)) graphs
     \<and> prepare_batch (batch_of graphs) [1, 0, 1 :: int] = Inr ((af, bf, ps, m), [1, 0, 1])
     \<and> ps = concat (map (\<lambda>i. shift_pairs (node_offset graphs i)
                               (emitted_pairs ([ethanol, methane, ethanol] ! i)))
                     [0..<length [ethanol, methane, ethanol]])
     \<and> sorted (map fst ps)
     \<and> ps = [(0, 0), (0, 1), (1, 1), (1, 0), (1, 2), (2, 2), (2, 1), (3, 3),
             (4, 4), (4, 5), (5, 5), (5, 4), (5, 6), (6, 6), (6, 5)])"
proof -
  have ne: "[ethanol, methane, ethanol] \<noteq> []" by simp
  from source_column_sorted [OF ne, of "[1, 0, 1 :: int]"] obtain graphs af bf ps m where
    r: "map graph_from_molecule [ethanol, methane, ethanol] = map Inr graphs"
       "map (\<lambda>(a, b, p). p) graphs = map emitted_pairs [ethanol, methane, ethanol]"
       "map (\<lambda>(a, b, p). length a) graphs =
         map (\<lambda>molecule. length (mol_atoms molecule)) [ethanol, methane, ethanol]"
       "list_all (\<lambda>(a, b, p). sorted (map fst p)) graphs"
       "prepare_batch (batch_of graphs) [1, 0, 1 :: int] = Inr ((af, bf, ps, m), [1, 0, 1])"
       "ps = concat (map (\<lambda>i. shift_pairs (node_offset graphs i)
                               (emitted_pairs ([ethanol, methane, ethanol] ! i)))
                     [0..<length [ethanol, methane, ethanol]])"
       "sorted (map fst ps)"
    by (elim exE conjE)
  have ns: "map (\<lambda>molecule. length (mol_atoms molecule)) [ethanol, methane, ethanol] = [3, 1, 3]"
    by (simp add: ethanol_def methane_def)
  have "node_offset graphs i = sum_list (take i (map (\<lambda>(a, b, p). length a) graphs))" for i
    by (simp add: node_offset_def take_map)
  then have off: "node_offset graphs i = sum_list (take i [3, 1, 3])" for i
    by (simp only: r(3) ns)
  have e1: "emitted_pairs ethanol = [(0, 0), (0, 1), (1, 1), (1, 0), (1, 2), (2, 2), (2, 1)]"
    by code_simp
  have e2: "emitted_pairs methane = [(0, 0)]"
    by code_simp
  have up: "[0..<length [ethanol, methane, ethanol]] = [0, 1, 2]"
    by (simp add: upt_rec)
  have v: "ps = [(0, 0), (0, 1), (1, 1), (1, 0), (1, 2), (2, 2), (2, 1), (3, 3),
             (4, 4), (4, 5), (5, 5), (5, 4), (5, 6), (6, 6), (6, 5)]"
    unfolding r(6) up by (simp add: off e1 e2 shift_pairs_def)
  have "\<exists>graphs af bf ps m.
       map graph_from_molecule [ethanol, methane, ethanol] = map Inr graphs
     \<and> map (\<lambda>(a, b, p). p) graphs = map emitted_pairs [ethanol, methane, ethanol]
     \<and> map (\<lambda>(a, b, p). length a) graphs =
         map (\<lambda>molecule. length (mol_atoms molecule)) [ethanol, methane, ethanol]
     \<and> list_all (\<lambda>(a, b, p). sorted (map fst p)) graphs
     \<and> prepare_batch (batch_of graphs) [1, 0, 1 :: int] = Inr ((af, bf, ps, m), [1, 0, 1])
     \<and> ps = concat (map (\<lambda>i. shift_pairs (node_offset graphs i)
                               (emitted_pairs ([ethanol, methane, ethanol] ! i)))
                     [0..<length [ethanol, methane, ethanol]])
     \<and> sorted (map fst ps)
     \<and> ps = [(0, 0), (0, 1), (1, 1), (1, 0), (1, 2), (2, 2), (2, 1), (3, 3),
             (4, 4), (4, 5), (5, 5), (5, 4), (5, 6), (6, 6), (6, 5)]"
    by (intro exI conjI, rule r(1), rule r(2), rule r(3), rule r(4), rule r(5), rule r(6),
        rule r(7), rule v)
  with ne show ?thesis by (intro conjI)
qed

section \<open>The featurizer: slots and one-hot encoding\<close>

lemma slot_lo_0 [simp]: "slot_lo as 0 = 0"
  by (simp add: slot_lo_def)

lemma slot_lo_Suc:
  "i < length as \<Longrightarrow> slot_lo as (Suc i) = slot_lo as i + card (snd (as ! i))"
  by (simp add: slot_lo_def total_dim_def take_Suc_conv_app_nth case_prod_unfold)

lemma slot_lo_mono: "i \<le> i' \<Longrightarrow> slot_lo as i \<le> slot_lo as i'"
proof -
  assume le: "i \<le> i'"
  let ?c = "map (\<lambda>(k, s). card s) as"
  have "slot_lo as i = sum_list (take i (take i' ?c))"
    using le by (simp add: slot_lo_def total_dim_def take_map min_def)
  also have "\<dots> \<le> sum_list (take i' ?c)" by (rule sum_list_take_le)
  also have "\<dots> = slot_lo as i'" by (simp add: slot_lo_def total_dim_def take_map)
  finally show ?thesis .
qed

lemma slot_lo_length: "slot_lo as (length as) = total_dim as"
  by (simp add: slot_lo_def)

lemma slot_lo_Cons: "slot_lo ((k, s) # as) (Suc i) = card s + slot_lo as i"
  by (simp add: slot_lo_def)

lemma slot_table_nth:
  "i < length as \<Longrightarrow>
   slot_table d as ! i =
     (fst (as ! i),
      map_of (zip (sorted_list_of_set (snd (as ! i)))
                [d + slot_lo as i ..< d + slot_lo as i + card (snd (as ! i))]))"
proof (induction as arbitrary: d i)
  case Nil
  then show ?case by simp
next
  case (Cons a as)
  obtain k s where a: "a = (k, s)" by (cases a)
  show ?case
  proof (cases i)
    case 0
    then show ?thesis by (simp add: a)
  next
    case (Suc i')
    with Cons.prems have "i' < length as" by simp
    from Cons.IH [OF this, of "d + card s"] show ?thesis
      by (simp add: a Suc slot_lo_Cons add.assoc)
  qed
qed

lemma length_slot_table [simp]: "length (slot_table d as) = length as"
  by (induction as arbitrary: d) auto

lemma entry_range:
  assumes "map_of (zip (sorted_list_of_set s) [lo ..< lo + card s]) v = Some j"
  shows "lo \<le> j \<and> j < lo + card s \<and> v \<in> s"
proof -
  from assms have in_zip: "(v, j) \<in> set (zip (sorted_list_of_set s) [lo ..< lo + card s])"
    by (rule map_of_SomeD)
  then have "j \<in> set [lo ..< lo + card s]" by (rule set_zip_rightD)
  moreover from in_zip have v: "v \<in> set (sorted_list_of_set s)" by (rule set_zip_leftD)
  have "v \<in> s"
  proof (cases "finite s")
    case True
    with v show ?thesis by simp
  next
    case False
    with v show ?thesis by simp
  qed
  ultimately show ?thesis by simp
qed

lemma entry_total:
  assumes "finite s" and "v \<in> s"
  shows "\<exists>j. map_of (zip (sorted_list_of_set s) [lo ..< lo + card s]) v = Some j"
proof -
  have "v \<in> set (sorted_list_of_set s)" using assms by simp
  moreover have "length (sorted_list_of_set s) = length [lo ..< lo + card s]" by simp
  ultimately have "v \<in> dom (map_of (zip (sorted_list_of_set s) [lo ..< lo + card s]))"
    by (simp only: dom_map_of_zip)
  then show ?thesis by blast
qed

lemma entry_dom:
  "finite s \<Longrightarrow> dom (map_of (zip (sorted_list_of_set s) [lo ..< lo + card s])) = s"
  by (subst dom_map_of_zip) simp_all

lemma entry_ran:
  "finite s \<Longrightarrow> ran (map_of (zip (sorted_list_of_set s) [lo ..< lo + card s])) = {lo ..< lo + card s}"
  by (subst ran_map_of_zip) simp_all

lemma slot_owner:
  assumes "(k, m) \<in> set (slot_table 0 as)" and "m v = Some j"
  shows "\<exists>i < length as. slot_table 0 as ! i = (k, m) \<and> k = fst (as ! i)
           \<and> slot_lo as i \<le> j \<and> j < slot_lo as (Suc i) \<and> v \<in> snd (as ! i)"
proof -
  from assms(1) obtain i where i: "i < length as" and nth: "slot_table 0 as ! i = (k, m)"
    by (auto simp: in_set_conv_nth)
  from slot_table_nth [OF i, of 0] nth
  have k: "k = fst (as ! i)"
    and m: "m = map_of (zip (sorted_list_of_set (snd (as ! i)))
                [slot_lo as i ..< slot_lo as i + card (snd (as ! i))])"
    by simp_all
  from assms(2) have "slot_lo as i \<le> j \<and> j < slot_lo as i + card (snd (as ! i)) \<and> v \<in> snd (as ! i)"
    unfolding m by (rule entry_range)
  then show ?thesis using i nth k by (auto simp: slot_lo_Suc)
qed

lemma range_unique:
  assumes "slot_lo as i \<le> j" "j < slot_lo as (Suc i)"
    and "slot_lo as i' \<le> j" "j < slot_lo as (Suc i')"
  shows "i = i'"
proof (rule ccontr)
  assume "i \<noteq> i'"
  then consider "Suc i \<le> i'" | "Suc i' \<le> i" by linarith
  then show False
  proof cases
    case 1
    from slot_lo_mono [OF 1, of as] assms(2,3) show False by simp
  next
    case 2
    from slot_lo_mono [OF 2, of as] assms(1,4) show False by simp
  qed
qed

lemma range_cover:
  "n \<le> length as \<Longrightarrow> j < slot_lo as n \<Longrightarrow>
   \<exists>i < n. slot_lo as i \<le> j \<and> j < slot_lo as (Suc i)"
proof (induction n)
  case 0
  then show ?case by simp
next
  case (Suc n)
  show ?case
  proof (cases "j < slot_lo as n")
    case True
    with Suc obtain i where "i < n" "slot_lo as i \<le> j \<and> j < slot_lo as (Suc i)" by auto
    then show ?thesis by (auto intro: exI [of _ i])
  next
    case False
    with Suc.prems(2) show ?thesis by (auto intro: exI [of _ n])
  qed
qed

lemma distinct_keys_nth:
  assumes "distinct (map fst as)" "i < length as" "i' < length as" "fst (as ! i) = fst (as ! i')"
  shows "i = i'"
  using assms by (metis distinct_conv_nth length_map nth_map)

text \<open>The output of \<open>encode\<close> on a constructed featurizer, slot by slot.\<close>

lemma encode_init_spec:
  assumes d: "distinct (map fst as)" and me: "\<forall>i < length as. methods (fst (as ! i)) \<noteq> None"
    and sub: "set fm \<subseteq> set (slot_table 0 as)"
  shows "\<exists>out. encode_loop methods x fm (replicate (total_dim as + extra) 0) = Inr out
     \<and> length out = total_dim as + extra
     \<and> (\<forall>j < total_dim as + extra. out ! j =
          (if \<exists>(k, m) \<in> set fm. \<exists>f. methods k = Some f \<and> m (f x) = Some j then 1 else 0))"
proof -
  have p1: "\<forall>(k, m) \<in> set fm. methods k \<noteq> None"
  proof -
    have "methods k \<noteq> None" if "(k, m) \<in> set fm" for k m
    proof -
      from that sub have "(k, m) \<in> set (slot_table 0 as)" by blast
      then obtain i where "i < length as" "slot_table 0 as ! i = (k, m)"
        by (auto simp: in_set_conv_nth)
      with slot_table_nth [of i as 0] have "i < length as" "k = fst (as ! i)" by simp_all
      with me show ?thesis by simp
    qed
    then show ?thesis by auto
  qed
  have p2: "\<forall>(k, m) \<in> set fm. \<forall>v j. m v = Some j \<longrightarrow>
              j < length (replicate (total_dim as + extra) (0::real))"
  proof -
    have "j < total_dim as + extra" if "(k, m) \<in> set fm" "m v = Some j" for k m v j
    proof -
      from that sub have "(k, m) \<in> set (slot_table 0 as)" by blast
      from slot_table_bounds [OF this that(2)] show ?thesis by simp
    qed
    then show ?thesis by auto
  qed
  from encode_loop_pointwise [OF p1 p2, of x] show ?thesis by auto
qed

text \<open>
  C6. \<open>Featurizer.encode\<close> runs on an object that \<open>Featurizer.__init__\<close> has built
  (\<open>self0\<close>) and whose \<open>dim\<close> a subclass constructor may have raised by \<open>extra\<close>
  afterwards: \<open>extra\<close> is 0 for a \<open>Featurizer\<close> and an \<open>AtomFeaturizer\<close> and 1 for a
  \<open>BondFeaturizer\<close>. When the value extracted for category \<open>i\<close> is outside its
  allowed set, \<open>encode\<close> returns normally, every slot of category \<open>i\<close> is zero, and
  the output is the one the loop produces with the entry of category \<open>i\<close> left out: no
  other slot is affected. Every category is assumed to have its extractor method, as the
  claim speaks of the value extracted for each.
\<close>

theorem encode_out_of_vocabulary:
  assumes d: "distinct (map fst allowable_sets)"
    and init: "Featurizer_init allowable_sets = Inr self0"
    and me: "list_all (\<lambda>(k, s). methods k \<noteq> None) allowable_sets"
    and i: "i < length allowable_sets"
    and f: "methods (fst (allowable_sets ! i)) = Some f"
    and oov: "f x \<notin> snd (allowable_sets ! i)"
  shows "\<exists>out. encode (self0\<lparr>dim := dim self0 + extra\<rparr>) methods x = Inr out
     \<and> length out = total_dim allowable_sets + extra
     \<and> (\<forall>j. slot_lo allowable_sets i \<le> j \<and> j < slot_lo allowable_sets (Suc i) \<longrightarrow> out ! j = 0)
     \<and> encode_loop methods x
         (take i (features_mapping self0) @ drop (Suc i) (features_mapping self0))
         (replicate (dim self0 + extra) 0) = Inr out"
proof -
  let ?as = allowable_sets
  let ?fm = "slot_table 0 ?as"
  let ?fm' = "take i ?fm @ drop (Suc i) ?fm"
  let ?hot = "\<lambda>fm j. \<exists>(k, m) \<in> set fm. \<exists>f. methods k = Some f \<and> m (f x) = Some j"
  have me': "\<forall>i < length ?as. methods (fst (?as ! i)) \<noteq> None"
    using me by (simp add: list_all_length case_prod_unfold)
  have fz: "features_mapping self0 = ?fm" "dim self0 = total_dim ?as"
    using Featurizer_init_eq [OF init d] by simp_all
  from encode_init_spec [OF d me' order_refl, where x = x and extra = extra] obtain out where
    out: "encode_loop methods x ?fm (replicate (total_dim ?as + extra) 0) = Inr out"
      "length out = total_dim ?as + extra"
      "\<forall>j < total_dim ?as + extra. out ! j = (if ?hot ?fm j then 1 else 0)"
    by (elim exE conjE)
  have sub: "set ?fm' \<subseteq> set ?fm"
    by (auto dest: in_set_takeD in_set_dropD)
  from encode_init_spec [OF d me' sub, where x = x and extra = extra] obtain out' where
    out': "encode_loop methods x ?fm' (replicate (total_dim ?as + extra) 0) = Inr out'"
      "length out' = total_dim ?as + extra"
      "\<forall>j < total_dim ?as + extra. out' ! j = (if ?hot ?fm' j then 1 else 0)"
    by (elim exE conjE)
  \<comment> \<open>the entry of category \<open>i\<close> never fires\<close>
  have quiet: "\<not> (methods k = Some f' \<and> m (f' x) = Some j)"
    if km: "(k, m) \<in> set ?fm" and own: "slot_table 0 ?as ! i = (k, m)" for k m f' j
  proof
    assume a: "methods k = Some f' \<and> m (f' x) = Some j"
    from slot_table_nth [OF i, of 0] own
    have k: "k = fst (?as ! i)"
      and m: "m = map_of (zip (sorted_list_of_set (snd (?as ! i)))
                [slot_lo ?as i ..< slot_lo ?as i + card (snd (?as ! i))])"
      by simp_all
    from a k f have "f' = f" by simp
    with a have "m (f x) = Some j" by simp
    then have "f x \<in> snd (?as ! i)" unfolding m by (rule entry_range [THEN conjunct2, THEN conjunct2])
    with oov show False by contradiction
  qed
  have split: "set ?fm = insert (?fm ! i) (set ?fm')"
  proof -
    have "?fm = take i ?fm @ ?fm ! i # drop (Suc i) ?fm"
      using i by (intro id_take_nth_drop) simp
    then have "set ?fm = set (take i ?fm @ ?fm ! i # drop (Suc i) ?fm)" by simp
    then show ?thesis by simp
  qed
  have hot_eq: "?hot ?fm j = ?hot ?fm' j" for j
  proof
    assume "?hot ?fm j"
    then obtain k m f' where km: "(k, m) \<in> set ?fm" and a: "methods k = Some f' \<and> m (f' x) = Some j"
      by blast
    from km split consider "(k, m) = ?fm ! i" | "(k, m) \<in> set ?fm'" by auto
    then show "?hot ?fm' j"
    proof cases
      case 1
      with quiet [OF km, of f' j] a show ?thesis by simp
    next
      case 2
      with a show ?thesis by blast
    qed
  next
    assume "?hot ?fm' j"
    with sub show "?hot ?fm j" by blast
  qed
  have same: "out' = out"
    by (rule nth_equalityI) (simp_all add: out out' hot_eq)
  have zero: "out ! j = 0" if lo: "slot_lo ?as i \<le> j" and hi: "j < slot_lo ?as (Suc i)" for j
  proof -
    have "slot_lo ?as (Suc i) \<le> slot_lo ?as (length ?as)"
      using i by (intro slot_lo_mono) simp
    with hi have j: "j < total_dim ?as + extra" by (simp add: slot_lo_length)
    have "\<not> ?hot ?fm j"
    proof
      assume "?hot ?fm j"
      then obtain k m f' where km: "(k, m) \<in> set ?fm" and a: "methods k = Some f'" "m (f' x) = Some j"
        by blast
      from slot_owner [OF km a(2)] obtain i' where
        i': "i' < length ?as" "slot_table 0 ?as ! i' = (k, m)"
          "slot_lo ?as i' \<le> j" "j < slot_lo ?as (Suc i')"
        by blast
      from range_unique [OF lo hi i'(3,4)] have "i = i'" .
      with i'(2) quiet [OF km, of f' j] a show False by simp
    qed
    with out(3) j show ?thesis by simp
  qed
  show ?thesis
    using out(1,2) out'(1) same zero by (auto simp: encode_def fz)
qed

theorem encode_out_of_vocabulary_xenon:
  "distinct (map fst atom_allowable_sets) \<and>
   Featurizer_init atom_allowable_sets = Inr atom_featurizer \<and>
   list_all (\<lambda>(k, s). AtomFeaturizer_methods k \<noteq> None) atom_allowable_sets \<and>
   0 < length atom_allowable_sets \<and>
   AtomFeaturizer_methods (fst (atom_allowable_sets ! 0)) = Some (\<lambda>atom. PStr (GetSymbol atom)) \<and>
   PStr (GetSymbol xenon) \<notin> snd (atom_allowable_sets ! 0) \<and>
   encode atom_featurizer AtomFeaturizer_methods xenon =
     Inr [0, 0, 0, 0, 0, 0, 0, 0, 0, 0, 0, 0, 0,  1, 0, 0, 0, 0, 0, 0,  1, 0, 0, 0, 0,  0, 0, 0, 0] \<and>
   encode_loop AtomFeaturizer_methods xenon
     (take 0 (features_mapping atom_featurizer) @ drop (Suc 0) (features_mapping atom_featurizer))
     (replicate (dim atom_featurizer + 0) 0) =
     Inr [0, 0, 0, 0, 0, 0, 0, 0, 0, 0, 0, 0, 0,  1, 0, 0, 0, 0, 0, 0,  1, 0, 0, 0, 0,  0, 0, 0, 0] \<and>
   distinct (map fst bond_allowable_sets) \<and>
   list_all (\<lambda>(k, s). BondFeaturizer_methods k \<noteq> None) bond_allowable_sets \<and>
   0 < length bond_allowable_sets \<and>
   BondFeaturizer_methods (fst (bond_allowable_sets ! 0)) =
     Some (\<lambda>bond. PStr (lower (GetBondType_name bond))) \<and>
   PStr (lower (GetBondType_name dative_bond)) \<notin> snd (bond_allowable_sets ! 0) \<and>
   (\<exists>self0. Featurizer_init bond_allowable_sets = Inr self0
      \<and> bond_featurizer = self0\<lparr>dim := dim self0 + 1\<rparr>
      \<and> encode bond_featurizer BondFeaturizer_methods dative_bond = Inr [0, 0, 0, 0, 0, 1, 0]
      \<and> encode_loop BondFeaturizer_methods dative_bond
           (take 0 (features_mapping self0) @ drop (Suc 0) (features_mapping self0))
           (replicate (dim self0 + 1) 0) = Inr [0, 0, 0, 0, 0, 1, 0])"
proof -
  let ?v = "[0, 0, 0, 0, 0, 0, 0, 0, 0, 0, 0, 0, 0,  1, 0, 0, 0, 0, 0, 0,  1, 0, 0, 0, 0,  0, 0, 0, 0 :: real]"
  let ?w = "[0, 0, 0, 0, 0, 1, 0 :: real]"
  have h1: "distinct (map fst atom_allowable_sets)"
    by (simp add: atom_allowable_sets_def)
  have h0: "Featurizer_init atom_allowable_sets = Inr atom_featurizer"
    using atom_featurizer_init by (simp add: AtomFeaturizer_init_def)
  have h2: "list_all (\<lambda>(k, s). AtomFeaturizer_methods k \<noteq> None) atom_allowable_sets"
    by (simp add: atom_allowable_sets_def AtomFeaturizer_methods_def)
  have h3: "0 < length atom_allowable_sets"
    by (simp add: atom_allowable_sets_def)
  have h4: "AtomFeaturizer_methods (fst (atom_allowable_sets ! 0)) = Some (\<lambda>atom. PStr (GetSymbol atom))"
    by (simp add: atom_allowable_sets_def AtomFeaturizer_methods_def)
  have h5: "PStr (GetSymbol xenon) \<notin> snd (atom_allowable_sets ! 0)"
    by (simp add: atom_allowable_sets_def xenon_def)
  have v: "encode atom_featurizer AtomFeaturizer_methods xenon = Inr ?v"
    by code_simp
  have same: "atom_featurizer\<lparr>dim := dim atom_featurizer + 0\<rparr> = atom_featurizer"
    by simp
  from encode_out_of_vocabulary [OF h1 h0 h2 h3 h4 h5, of 0] obtain out where
    o: "encode atom_featurizer AtomFeaturizer_methods xenon = Inr out"
       "encode_loop AtomFeaturizer_methods xenon
         (take 0 (features_mapping atom_featurizer) @ drop (Suc 0) (features_mapping atom_featurizer))
         (replicate (dim atom_featurizer + 0) 0) = Inr out"
    unfolding same by (elim exE conjE)
  from o(1) v have out: "out = ?v" by simp
  from o(2) have skip: "encode_loop AtomFeaturizer_methods xenon
         (take 0 (features_mapping atom_featurizer) @ drop (Suc 0) (features_mapping atom_featurizer))
         (replicate (dim atom_featurizer + 0) 0) = Inr ?v"
    by (simp only: out)
  have b1: "distinct (map fst bond_allowable_sets)"
    by (simp add: bond_allowable_sets_def)
  have b2: "list_all (\<lambda>(k, s). BondFeaturizer_methods k \<noteq> None) bond_allowable_sets"
    by (simp add: bond_allowable_sets_def BondFeaturizer_methods_def)
  have b3: "0 < length bond_allowable_sets"
    by (simp add: bond_allowable_sets_def)
  have b4: "BondFeaturizer_methods (fst (bond_allowable_sets ! 0)) =
     Some (\<lambda>bond. PStr (lower (GetBondType_name bond)))"
    by (simp add: bond_allowable_sets_def BondFeaturizer_methods_def)
  have low: "lower ''DATIVE'' = ''dative''" by code_simp
  have b5: "PStr (lower (GetBondType_name dative_bond)) \<notin> snd (bond_allowable_sets ! 0)"
    by (simp add: bond_allowable_sets_def dative_bond_def low)
  from bond_featurizer_eq obtain self0 where
    b0: "Featurizer_init bond_allowable_sets = Inr self0"
    and bz: "bond_featurizer = self0\<lparr>dim := dim self0 + 1\<rparr>"
    by (elim exE conjE)
  have w: "encode bond_featurizer BondFeaturizer_methods dative_bond = Inr ?w"
    by code_simp
  from encode_out_of_vocabulary [OF b1 b0 b2 b3 b4 b5, of 1] obtain out' where
    o': "encode bond_featurizer BondFeaturizer_methods dative_bond = Inr out'"
       "encode_loop BondFeaturizer_methods dative_bond
         (take 0 (features_mapping self0) @ drop (Suc 0) (features_mapping self0))
         (replicate (dim self0 + 1) 0) = Inr out'"
    unfolding bz [symmetric] by (elim exE conjE)
  from o'(1) w have out': "out' = ?w" by simp
  from o'(2) have skip': "encode_loop BondFeaturizer_methods dative_bond
         (take 0 (features_mapping self0) @ drop (Suc 0) (features_mapping self0))
         (replicate (dim self0 + 1) 0) = Inr ?w"
    by (simp only: out')
  have bond: "\<exists>self0. Featurizer_init bond_allowable_sets = Inr self0
      \<and> bond_featurizer = self0\<lparr>dim := dim self0 + 1\<rparr>
      \<and> encode bond_featurizer BondFeaturizer_methods dative_bond = Inr ?w
      \<and> encode_loop BondFeaturizer_methods dative_bond
           (take 0 (features_mapping self0) @ drop (Suc 0) (features_mapping self0))
           (replicate (dim self0 + 1) 0) = Inr ?w"
    by (intro exI conjI, rule b0, rule bz, rule w, rule skip')
  show ?thesis
    by (intro conjI h1 h0 h2 h3 h4 h5 v skip b1 b2 b3 b4 b5 bond)
qed

text \<open>
  C7, as stated, fails on the bond featurizer of the module. The bond \<open>single_bond\<close> has
  both its values in the declared sets, which hold six values in all, and
  \<open>Featurizer.encode\<close> returns seven slots: \<open>BondFeaturizer.__init__\<close> has added one
  slot for the absent bond.
\<close>

theorem encode_length_counterexample:
  "list_all (\<lambda>(k, s). case BondFeaturizer_methods k of None \<Rightarrow> False
                        | Some f \<Rightarrow> f single_bond \<in> s) bond_allowable_sets \<and>
   BondFeaturizer_init bond_allowable_sets = Inr bond_featurizer \<and>
   encode bond_featurizer BondFeaturizer_methods single_bond = Inr [0, 0, 1, 0, 1, 0, 0] \<and>
   BondFeaturizer_encode bond_featurizer (Some single_bond) = Inr [0, 0, 1, 0, 1, 0, 0] \<and>
   total_dim bond_allowable_sets = 6 \<and>
   length [0, 0, 1, 0, 1, 0, 0 :: real] \<noteq> total_dim bond_allowable_sets"
proof -
  have low: "lower ''SINGLE'' = ''single''" by code_simp
  have h1: "list_all (\<lambda>(k, s). case BondFeaturizer_methods k of None \<Rightarrow> False
                        | Some f \<Rightarrow> f single_bond \<in> s) bond_allowable_sets"
    by (simp add: bond_allowable_sets_def BondFeaturizer_methods_def single_bond_def low PBool_def)
  have v: "encode bond_featurizer BondFeaturizer_methods single_bond = Inr [0, 0, 1, 0, 1, 0, 0]"
    by code_simp
  have v': "BondFeaturizer_encode bond_featurizer (Some single_bond) = Inr [0, 0, 1, 0, 1, 0, 0]"
    using v by (simp add: BondFeaturizer_encode_def)
  have td: "total_dim bond_allowable_sets = 6"
    by (simp add: bond_allowable_sets_def PBool_def)
  have ne: "length [0, 0, 1, 0, 1, 0, 0 :: real] \<noteq> total_dim bond_allowable_sets"
    by (simp add: td)
  show ?thesis
    by (intro conjI h1 bond_featurizer_init v v' td ne)
qed

text \<open>
  C7, amended. \<open>Featurizer.encode\<close> runs on an object that \<open>Featurizer.__init__\<close> has
  built (\<open>self0\<close>) and whose \<open>dim\<close> a subclass constructor may have raised by \<open>extra\<close>
  afterwards (0 for a \<open>Featurizer\<close> and an \<open>AtomFeaturizer\<close>, 1 for a
  \<open>BondFeaturizer\<close>). When the value extracted for every category lies in its allowed
  set, \<open>encode\<close> returns a vector whose length is the total number of allowed values
  plus \<open>extra\<close>; every slot is 0 or 1; each category has exactly one slot equal to 1 in
  its range; every slot below the total number of allowed values lies in the range of
  exactly one category; the \<open>extra\<close> slots after them are 0; and the range of category
  \<open>i\<close> is the set of slots its mapping assigns, one for each allowed value.
\<close>

theorem encode_one_hot:
  assumes d: "distinct (map fst allowable_sets)"
    and init: "Featurizer_init allowable_sets = Inr self0"
    and fin: "list_all (\<lambda>(k, s). finite s) allowable_sets"
    and voc: "list_all (\<lambda>(k, s). case methods k of None \<Rightarrow> False | Some f \<Rightarrow> f x \<in> s)
                allowable_sets"
  shows "\<exists>out. encode (self0\<lparr>dim := dim self0 + extra\<rparr>) methods x = Inr out
     \<and> length out = total_dim allowable_sets + extra
     \<and> (\<forall>j < length out. out ! j = 0 \<or> out ! j = 1)
     \<and> (\<forall>i < length allowable_sets.
           \<exists>!j. slot_lo allowable_sets i \<le> j \<and> j < slot_lo allowable_sets (Suc i) \<and> out ! j = 1)
     \<and> (\<forall>j < total_dim allowable_sets.
           \<exists>!i. i < length allowable_sets \<and> slot_lo allowable_sets i \<le> j
                \<and> j < slot_lo allowable_sets (Suc i))
     \<and> (\<forall>j. total_dim allowable_sets \<le> j \<and> j < length out \<longrightarrow> out ! j = 0)
     \<and> (\<forall>i < length allowable_sets.
           case features_mapping self0 ! i of
             (k, m) \<Rightarrow> k = fst (allowable_sets ! i) \<and> dom m = snd (allowable_sets ! i)
               \<and> ran m = {slot_lo allowable_sets i ..< slot_lo allowable_sets (Suc i)})"
proof -
  let ?as = allowable_sets
  let ?fm = "slot_table 0 ?as"
  let ?hot = "\<lambda>j. \<exists>(k, m) \<in> set ?fm. \<exists>f. methods k = Some f \<and> m (f x) = Some j"
  have fz: "features_mapping self0 = ?fm" "dim self0 = total_dim ?as"
    using Featurizer_init_eq [OF init d] by simp_all
  have fin': "finite (snd (?as ! i))" if "i < length ?as" for i
    using fin that by (simp add: list_all_length case_prod_unfold)
  have voc': "\<exists>f. methods (fst (?as ! i)) = Some f \<and> f x \<in> snd (?as ! i)" if "i < length ?as" for i
    using voc that by (auto simp: list_all_length case_prod_unfold split: option.splits)
  have me': "\<forall>i < length ?as. methods (fst (?as ! i)) \<noteq> None"
  proof (intro allI impI)
    fix i assume "i < length ?as"
    from voc' [OF this] show "methods (fst (?as ! i)) \<noteq> None" by auto
  qed
  from encode_init_spec [OF d me' order_refl, where x = x and extra = extra] obtain out where
    out: "encode_loop methods x ?fm (replicate (total_dim ?as + extra) 0) = Inr out"
      "length out = total_dim ?as + extra"
      "\<forall>j < total_dim ?as + extra. out ! j = (if ?hot j then 1 else 0)"
    by (elim exE conjE)
  have enc: "encode (self0\<lparr>dim := dim self0 + extra\<rparr>) methods x = Inr out"
    using out(1) by (simp add: encode_def fz)
  have bits: "\<forall>j < length out. out ! j = 0 \<or> out ! j = 1"
    using out(2,3) by simp
  have entry: "?fm ! i = (fst (?as ! i),
      map_of (zip (sorted_list_of_set (snd (?as ! i)))
                [slot_lo ?as i ..< slot_lo ?as (Suc i)]))" if "i < length ?as" for i
    using slot_table_nth [OF that, of 0] that by (simp add: slot_lo_Suc)
  have one: "\<exists>!j. slot_lo ?as i \<le> j \<and> j < slot_lo ?as (Suc i) \<and> out ! j = 1"
    if i: "i < length ?as" for i
  proof -
    define m where "m = map_of (zip (sorted_list_of_set (snd (?as ! i)))
                [slot_lo ?as i ..< slot_lo ?as (Suc i)])"
    from voc' [OF i] obtain f where f: "methods (fst (?as ! i)) = Some f" "f x \<in> snd (?as ! i)"
      by blast
    from entry_total [OF fin' [OF i] f(2), of "slot_lo ?as i"] obtain j0 where
      j0: "m (f x) = Some j0"
      by (auto simp: m_def slot_lo_Suc [OF i])
    have "?fm ! i \<in> set ?fm" using i by (intro nth_mem) simp
    then have mem: "(fst (?as ! i), m) \<in> set ?fm"
      by (simp only: entry [OF i] m_def)
    from slot_owner [OF mem j0] obtain i' where
      i': "i' < length ?as" "fst (?as ! i) = fst (?as ! i')"
        "slot_lo ?as i' \<le> j0" "j0 < slot_lo ?as (Suc i')"
      by blast
    from distinct_keys_nth [OF d i i'(1,2)] have "i = i'" .
    with i' have r0: "slot_lo ?as i \<le> j0" "j0 < slot_lo ?as (Suc i)" by simp_all
    have "slot_lo ?as (Suc i) \<le> slot_lo ?as (length ?as)"
      using i by (intro slot_lo_mono) simp
    then have top: "slot_lo ?as (Suc i) \<le> total_dim ?as" by (simp add: slot_lo_length)
    have "?hot j0" using mem f(1) j0 by blast
    with out(3) r0 top have h0: "out ! j0 = 1" by simp
    have uniq: "j = j0" if r: "slot_lo ?as i \<le> j" "j < slot_lo ?as (Suc i)" and h: "out ! j = 1" for j
    proof -
      from r top have "j < total_dim ?as + extra" by simp
      with out(3) h have "?hot j" by (auto split: if_splits)
      then obtain k' m' f' where km: "(k', m') \<in> set ?fm" and a: "methods k' = Some f'" "m' (f' x) = Some j"
        by blast
      from slot_owner [OF km a(2)] obtain i'' where
        i'': "i'' < length ?as" "slot_table 0 ?as ! i'' = (k', m')"
          "slot_lo ?as i'' \<le> j" "j < slot_lo ?as (Suc i'')"
        by blast
      from range_unique [OF r i''(3,4)] have "i = i''" .
      with i''(2) entry [OF i] have "k' = fst (?as ! i)" "m' = m" by (simp_all add: m_def)
      with a f(1) have "m (f x) = Some j" by simp
      with j0 show ?thesis by simp
    qed
    have "slot_lo ?as i \<le> j0 \<and> j0 < slot_lo ?as (Suc i) \<and> out ! j0 = 1"
      using r0 h0 by simp
    moreover have "j = j0" if "slot_lo ?as i \<le> j \<and> j < slot_lo ?as (Suc i) \<and> out ! j = 1" for j
      using that uniq by blast
    ultimately show ?thesis by (intro ex1I [of _ j0])
  qed
  have cover: "\<exists>!i. i < length ?as \<and> slot_lo ?as i \<le> j \<and> j < slot_lo ?as (Suc i)"
    if "j < total_dim ?as" for j
  proof -
    from that have "j < slot_lo ?as (length ?as)" by (simp add: slot_lo_length)
    from range_cover [OF order_refl this] obtain i where
      "i < length ?as" "slot_lo ?as i \<le> j" "j < slot_lo ?as (Suc i)"
      by blast
    then have ex: "i < length ?as \<and> slot_lo ?as i \<le> j \<and> j < slot_lo ?as (Suc i)" by simp
    have "i' = i" if "i' < length ?as \<and> slot_lo ?as i' \<le> j \<and> j < slot_lo ?as (Suc i')" for i'
      using that ex by (intro range_unique [of ?as i' j i]) simp_all
    with ex show ?thesis by (intro ex1I [of _ i])
  qed
  have trail: "out ! j = 0" if lo: "total_dim ?as \<le> j" and hi: "j < length out" for j
  proof -
    have "\<not> ?hot j"
    proof
      assume "?hot j"
      then obtain k m f' where km: "(k, m) \<in> set ?fm" and a: "m (f' x) = Some j"
        by blast
      from slot_table_bounds [OF km a] have "j < total_dim ?as" by simp
      with lo show False by simp
    qed
    with out(2,3) hi show ?thesis by simp
  qed
  have tab: "case features_mapping self0 ! i of
             (k, m) \<Rightarrow> k = fst (?as ! i) \<and> dom m = snd (?as ! i)
               \<and> ran m = {slot_lo ?as i ..< slot_lo ?as (Suc i)}"
    if i: "i < length ?as" for i
    using entry_dom [OF fin' [OF i], of "slot_lo ?as i"] entry_ran [OF fin' [OF i], of "slot_lo ?as i"]
    by (simp add: fz entry [OF i] slot_lo_Suc [OF i])
  have one': "\<forall>i < length ?as.
      \<exists>!j. slot_lo ?as i \<le> j \<and> j < slot_lo ?as (Suc i) \<and> out ! j = 1"
    using one by (intro allI impI)
  have cover': "\<forall>j < total_dim ?as.
      \<exists>!i. i < length ?as \<and> slot_lo ?as i \<le> j \<and> j < slot_lo ?as (Suc i)"
    using cover by (intro allI impI)
  have trail': "\<forall>j. total_dim ?as \<le> j \<and> j < length out \<longrightarrow> out ! j = 0"
    using trail by blast
  have tab': "\<forall>i < length ?as. case features_mapping self0 ! i of
             (k, m) \<Rightarrow> k = fst (?as ! i) \<and> dom m = snd (?as ! i)
               \<and> ran m = {slot_lo ?as i ..< slot_lo ?as (Suc i)}"
    using tab by (intro allI impI)
  show ?thesis
    by (intro exI conjI, rule enc, rule out(2), rule bits, rule one', rule cover', rule trail',
        rule tab')
qed

theorem encode_one_hot_carbon:
  "distinct (map fst atom_allowable_sets) \<and>
   Featurizer_init atom_allowable_sets = Inr atom_featurizer \<and>
   list_all (\<lambda>(k, s). finite s) atom_allowable_sets \<and>
   list_all (\<lambda>(k, s). case AtomFeaturizer_methods k of None \<Rightarrow> False | Some f \<Rightarrow> f carbon \<in> s)
     atom_allowable_sets \<and>
   encode atom_featurizer AtomFeaturizer_methods carbon =
     Inr [0, 0, 1, 0, 0, 0, 0, 0, 0, 0, 0, 0, 0,  0, 0, 0, 0, 1, 0, 0,  1, 0, 0, 0, 0,  0, 0, 0, 1] \<and>
   total_dim atom_allowable_sets + 0 = 29 \<and>
   (\<exists>!j. j < 13 \<and>
      [0, 0, 1, 0, 0, 0, 0, 0, 0, 0, 0, 0, 0,  0, 0, 0, 0, 1, 0, 0,  1, 0, 0, 0, 0,  0, 0, 0, 1 :: real] ! j = 1) \<and>
   (\<exists>!j. 13 \<le> j \<and> j < 20 \<and>
      [0, 0, 1, 0, 0, 0, 0, 0, 0, 0, 0, 0, 0,  0, 0, 0, 0, 1, 0, 0,  1, 0, 0, 0, 0,  0, 0, 0, 1 :: real] ! j = 1) \<and>
   distinct (map fst bond_allowable_sets) \<and>
   list_all (\<lambda>(k, s). finite s) bond_allowable_sets \<and>
   list_all (\<lambda>(k, s). case BondFeaturizer_methods k of None \<Rightarrow> False
                        | Some f \<Rightarrow> f single_bond \<in> s) bond_allowable_sets \<and>
   (\<exists>self0. Featurizer_init bond_allowable_sets = Inr self0
      \<and> bond_featurizer = self0\<lparr>dim := dim self0 + 1\<rparr>) \<and>
   encode bond_featurizer BondFeaturizer_methods single_bond = Inr [0, 0, 1, 0, 1, 0, 0] \<and>
   length [0, 0, 1, 0, 1, 0, 0 :: real] = total_dim bond_allowable_sets + 1 \<and>
   (\<exists>!j. j < 4 \<and> [0, 0, 1, 0, 1, 0, 0 :: real] ! j = 1) \<and>
   (\<exists>!j. 4 \<le> j \<and> j < 6 \<and> [0, 0, 1, 0, 1, 0, 0 :: real] ! j = 1) \<and>
   [0, 0, 1, 0, 1, 0, 0 :: real] ! 6 = 0"
proof -
  let ?w = "[0, 0, 1, 0, 1, 0, 0 :: real]"
  let ?v = "[0, 0, 1, 0, 0, 0, 0, 0, 0, 0, 0, 0, 0,  0, 0, 0, 0, 1, 0, 0,  1, 0, 0, 0, 0,  0, 0, 0, 1 :: real]"
  have h1: "distinct (map fst atom_allowable_sets)"
    by (simp add: atom_allowable_sets_def)
  have h0: "Featurizer_init atom_allowable_sets = Inr atom_featurizer"
    using atom_featurizer_init by (simp add: AtomFeaturizer_init_def)
  have h2: "list_all (\<lambda>(k, s). finite s) atom_allowable_sets"
    by (simp add: atom_allowable_sets_def)
  have low: "lower ''SP3'' = ''sp3''" by code_simp
  have h3: "list_all (\<lambda>(k, s). case AtomFeaturizer_methods k of None \<Rightarrow> False | Some f \<Rightarrow> f carbon \<in> s)
     atom_allowable_sets"
    by (simp add: atom_allowable_sets_def AtomFeaturizer_methods_def carbon_def low)
  have v: "encode atom_featurizer AtomFeaturizer_methods carbon = Inr ?v"
    by code_simp
  have td: "total_dim atom_allowable_sets + 0 = 29"
    by (simp add: atom_allowable_sets_def)
  have sl: "slot_lo atom_allowable_sets 0 = 0" "slot_lo atom_allowable_sets (Suc 0) = 13"
      "slot_lo atom_allowable_sets (Suc 1) = 20" "slot_lo atom_allowable_sets 1 = 13"
    by (simp_all add: atom_allowable_sets_def slot_lo_def)
  have len: "0 < length atom_allowable_sets" "1 < length atom_allowable_sets"
    by (simp_all add: atom_allowable_sets_def)
  have same: "atom_featurizer\<lparr>dim := dim atom_featurizer + 0\<rparr> = atom_featurizer"
    by simp
  from encode_one_hot [OF h1 h0 h2 h3, of 0] obtain out where
    o: "encode atom_featurizer AtomFeaturizer_methods carbon = Inr out"
       "\<forall>i < length atom_allowable_sets.
           \<exists>!j. slot_lo atom_allowable_sets i \<le> j \<and> j < slot_lo atom_allowable_sets (Suc i) \<and> out ! j = 1"
    unfolding same by (elim exE conjE)
  from o(1) v have out: "out = ?v" by simp
  from o(2) [rule_format, OF len(1)] have c0: "\<exists>!j. j < 13 \<and> ?v ! j = 1"
    by (simp only: sl out le0 simp_thms)
  from o(2) [rule_format, OF len(2)] have c1: "\<exists>!j. 13 \<le> j \<and> j < 20 \<and> ?v ! j = 1"
    by (simp only: sl out)
  have b1: "distinct (map fst bond_allowable_sets)"
    by (simp add: bond_allowable_sets_def)
  have b2: "list_all (\<lambda>(k, s). finite s) bond_allowable_sets"
    by (simp add: bond_allowable_sets_def)
  have lows: "lower ''SINGLE'' = ''single''" by code_simp
  have b3: "list_all (\<lambda>(k, s). case BondFeaturizer_methods k of None \<Rightarrow> False
                        | Some f \<Rightarrow> f single_bond \<in> s) bond_allowable_sets"
    by (simp add: bond_allowable_sets_def BondFeaturizer_methods_def single_bond_def lows PBool_def)
  from bond_featurizer_eq obtain self0 where
    b0: "Featurizer_init bond_allowable_sets = Inr self0"
    and bz: "bond_featurizer = self0\<lparr>dim := dim self0 + 1\<rparr>"
    by (elim exE conjE)
  have bx: "\<exists>self0. Featurizer_init bond_allowable_sets = Inr self0
      \<and> bond_featurizer = self0\<lparr>dim := dim self0 + 1\<rparr>"
    by (rule bond_featurizer_eq)
  have w: "encode bond_featurizer BondFeaturizer_methods single_bond = Inr ?w"
    by code_simp
  have bsl: "slot_lo bond_allowable_sets 0 = 0" "slot_lo bond_allowable_sets (Suc 0) = 4"
      "slot_lo bond_allowable_sets (Suc 1) = 6" "slot_lo bond_allowable_sets 1 = 4"
    by (simp_all add: bond_allowable_sets_def slot_lo_def PBool_def)
  have btd: "total_dim bond_allowable_sets = 6"
    by (simp add: bond_allowable_sets_def PBool_def)
  have blen: "0 < length bond_allowable_sets" "1 < length bond_allowable_sets"
    by (simp_all add: bond_allowable_sets_def)
  from encode_one_hot [OF b1 b0 b2 b3, of 1] obtain out' where
    o': "encode bond_featurizer BondFeaturizer_methods single_bond = Inr out'"
       "length out' = total_dim bond_allowable_sets + 1"
       "\<forall>i < length bond_allowable_sets.
           \<exists>!j. slot_lo bond_allowable_sets i \<le> j \<and> j < slot_lo bond_allowable_sets (Suc i) \<and> out' ! j = 1"
       "\<forall>j. total_dim bond_allowable_sets \<le> j \<and> j < length out' \<longrightarrow> out' ! j = 0"
    unfolding bz [symmetric] by (elim exE conjE)
  from o'(1) w have out': "out' = ?w" by simp
  from o'(2) have d0: "length ?w = total_dim bond_allowable_sets + 1"
    by (simp only: out')
  from o'(3) [rule_format, OF blen(1)] have d1: "\<exists>!j. j < 4 \<and> ?w ! j = 1"
    by (simp only: bsl out' le0 simp_thms)
  from o'(3) [rule_format, OF blen(2)] have d2: "\<exists>!j. 4 \<le> j \<and> j < 6 \<and> ?w ! j = 1"
    by (simp only: bsl out')
  from o'(4) [rule_format, of 6] have d3: "?w ! 6 = 0"
    by (simp add: btd out')
  show ?thesis
    by (intro conjI h1 h0 h2 h3 v td c0 c1 b1 b2 b3 bx w d0 d1 d2 d3)
qed

section \<open>Merging a batch and appending a graph\<close>

lemma node_offset_append:
  "i \<le> length graphs \<Longrightarrow> node_offset (graphs @ gs) i = node_offset graphs i"
  by (simp add: node_offset_def)

lemma merged_pairs_snoc:
  "merged_pairs (graphs @ [C]) =
     merged_pairs graphs @ shift_pairs (node_offset graphs (length graphs)) (snd (snd C))"
proof -
  let ?F' = "\<lambda>i. shift_pairs (node_offset (graphs @ [C]) i) (snd (snd ((graphs @ [C]) ! i)))"
  let ?F = "\<lambda>i. shift_pairs (node_offset graphs i) (snd (snd (graphs ! i)))"
  have eq: "map ?F' [0..<length graphs] = map ?F [0..<length graphs]"
    by (rule map_cong) (simp_all add: node_offset_append nth_append)
  have "merged_pairs (graphs @ [C]) = concat (map ?F' [0..<length graphs]) @ ?F' (length graphs)"
    by (simp add: merged_pairs_def)
  also have "\<dots> = concat (map ?F [0..<length graphs]) @ ?F' (length graphs)"
    by (simp only: eq)
  also have "\<dots> = merged_pairs graphs @
      shift_pairs (node_offset graphs (length graphs)) (snd (snd C))"
    by (simp add: merged_pairs_def node_offset_append)
  finally show ?thesis .
qed

lemma membership_snoc:
  "membership (graphs @ [C]) =
     membership graphs @ replicate (length (fst C)) (int (length graphs))"
proof -
  let ?F' = "\<lambda>i. replicate (length (fst ((graphs @ [C]) ! i))) (int i)"
  let ?F = "\<lambda>i. replicate (length (fst (graphs ! i))) (int i)"
  have eq: "map ?F' [0..<length graphs] = map ?F [0..<length graphs]"
    by (rule map_cong) (simp_all add: nth_append)
  have "membership (graphs @ [C]) = concat (map ?F' [0..<length graphs]) @ ?F' (length graphs)"
    by (simp add: membership_def)
  also have "\<dots> = concat (map ?F [0..<length graphs]) @ ?F' (length graphs)"
    by (simp only: eq)
  also have "\<dots> = membership graphs @ replicate (length (fst C)) (int (length graphs))"
    by (simp add: membership_def)
  finally show ?thesis .
qed

text \<open>
  C4. Merging a batch \<open>graphs\<close> (for the claim, \<open>[A, B]\<close>) with \<open>prepare_batch\<close> and
  then appending a graph \<open>C\<close> gives the global edge indices and the membership array of
  merging \<open>graphs @ [C]\<close> (for the claim, \<open>[A, B, C]\<close>) directly. Appending \<open>C\<close> to a
  merged batch is what the merge does with every graph: the index pairs of \<open>C\<close>,
  shifted by the number of rows of the merged node matrix, follow the merged index pairs,
  and the next graph index, repeated once for each node of \<open>C\<close>, follows the membership
  array. The merged node matrix grows by the nodes of \<open>C\<close>. The graphs have one index
  pair per row of edge features, and the counts, offsets and indices stay within the
  64-bit integers.
\<close>

theorem prepare_batch_append:
  assumes "graphs \<noteq> []" and "list_all edge_shaped graphs" and "edge_shaped C"
    and "int64_indices (graphs @ [C])"
  shows "\<exists>af bf ps m af' bf' ps' m'.
       prepare_batch (batch_of graphs) y = Inr ((af, bf, ps, m), y)
     \<and> prepare_batch (batch_of (graphs @ [C])) y' = Inr ((af', bf', ps', m'), y')
     \<and> ps' = ps @ shift_pairs (length af) (snd (snd C))
     \<and> m' = m @ replicate (length (fst C)) (int (length graphs))
     \<and> length af' = length af + length (fst C)
     \<and> list_all (\<lambda>(s, d). int64 s \<and> int64 d) ps'"
proof -
  let ?af = "to_tensor (concat (map (\<lambda>(a, b, p). a) graphs))"
  let ?af' = "to_tensor (concat (map (\<lambda>(a, b, p). a) (graphs @ [C])))"
  have sh: "\<forall>g \<in> set graphs. edge_shaped g" using assms(2) by (simp add: list_all_iff)
  have sh': "\<forall>g \<in> set (graphs @ [C]). edge_shaped g" using sh assms(3) by simp
  have r1: "prepare_batch (batch_of graphs) y =
     Inr ((?af, to_tensor (concat (map (\<lambda>(a, b, p). b) graphs)),
           merged_pairs graphs, membership graphs), y)"
    by (rule prepare_batch_eq [OF assms(1) sh])
  have r2: "prepare_batch (batch_of (graphs @ [C])) y' =
     Inr ((?af', to_tensor (concat (map (\<lambda>(a, b, p). b) (graphs @ [C]))),
           merged_pairs (graphs @ [C]), membership (graphs @ [C])), y')"
    by (rule prepare_batch_eq [OF _ sh']) simp
  have len: "length ?af = node_offset graphs (length graphs)"
    by (simp add: node_offset_total)
  have r3: "merged_pairs (graphs @ [C]) =
      merged_pairs graphs @ shift_pairs (length ?af) (snd (snd C))"
    by (simp only: merged_pairs_snoc len)
  have r4: "membership (graphs @ [C]) =
      membership graphs @ replicate (length (fst C)) (int (length graphs))"
    by (rule membership_snoc)
  have r5: "length ?af' = length ?af + length (fst C)"
    by (simp add: case_prod_unfold)
  have r6: "list_all (\<lambda>(s, d). int64 s \<and> int64 d) (merged_pairs (graphs @ [C]))"
    using assms(4) by (rule merged_pairs_int64)
  show ?thesis
    by (intro exI conjI, rule r1, rule r2, rule r3, rule r4, rule r5, rule r6)
qed

theorem prepare_batch_append_example:
  "[graph_A, graph_B] \<noteq> [] \<and> list_all edge_shaped [graph_A, graph_B] \<and> edge_shaped graph_C \<and>
   int64_indices ([graph_A, graph_B] @ [graph_C]) \<and>
   prepare_batch (batch_of [graph_A, graph_B]) [1, 0 :: int] =
     Inr (([[1, 0], [0, 1], [1, 1]], [[1], [0], [1], [0], [1]],
           [(0, 0), (0, 1), (1, 1), (1, 0), (2, 2)], [0, 0, 1]), [1, 0]) \<and>
   prepare_batch (batch_of ([graph_A, graph_B] @ [graph_C])) [1, 0, 1 :: int] =
     Inr (([[1, 0], [0, 1], [1, 1], [0, 1], [1, 1], [1, 0]],
           [[1], [0], [1], [0], [1], [1], [1], [1]],
           [(0, 0), (0, 1), (1, 1), (1, 0), (2, 2), (3, 3), (4, 4), (5, 5)],
           [0, 0, 1, 2, 2, 2]), [1, 0, 1]) \<and>
   ([(0, 0), (0, 1), (1, 1), (1, 0), (2, 2), (3, 3), (4, 4), (5, 5)] :: (int \<times> int) list) =
     [(0, 0), (0, 1), (1, 1), (1, 0), (2, 2)] @
       shift_pairs (length ([[1, 0], [0, 1], [1, 1]] :: real list list)) (snd (snd graph_C)) \<and>
   ([0, 0, 1, 2, 2, 2] :: int list) =
     [0, 0, 1] @ replicate (length (fst graph_C)) (int (length [graph_A, graph_B]))"
proof -
  have ne: "[graph_A, graph_B] \<noteq> []" by simp
  have sh: "list_all edge_shaped [graph_A, graph_B]"
    by (simp add: edge_shaped_def graph_A_def graph_B_def)
  have shC: "edge_shaped graph_C"
    by (simp add: edge_shaped_def graph_C_def)
  have up: "[0..<length ([graph_A, graph_B] @ [graph_C])] = [0, 1, 2]"
    by (simp add: upt_rec)
  have i64: "int64_indices ([graph_A, graph_B] @ [graph_C])"
    unfolding int64_indices_def up
    by (simp add: node_offset_def int64_def graph_A_def graph_B_def graph_C_def)
  have v1: "prepare_batch (batch_of [graph_A, graph_B]) [1, 0 :: int] =
     Inr (([[1, 0], [0, 1], [1, 1]], [[1], [0], [1], [0], [1]],
           [(0, 0), (0, 1), (1, 1), (1, 0), (2, 2)], [0, 0, 1]), [1, 0])"
    by code_simp
  have v2: "prepare_batch (batch_of ([graph_A, graph_B] @ [graph_C])) [1, 0, 1 :: int] =
     Inr (([[1, 0], [0, 1], [1, 1], [0, 1], [1, 1], [1, 0]],
           [[1], [0], [1], [0], [1], [1], [1], [1]],
           [(0, 0), (0, 1), (1, 1), (1, 0), (2, 2), (3, 3), (4, 4), (5, 5)],
           [0, 0, 1, 2, 2, 2]), [1, 0, 1])"
    by code_simp
  from prepare_batch_append [OF ne sh shC i64, of "[1, 0 :: int]" "[1, 0, 1 :: int]"]
  obtain af bf ps m af' bf' ps' m' where
    r: "prepare_batch (batch_of [graph_A, graph_B]) [1, 0 :: int] = Inr ((af, bf, ps, m), [1, 0])"
       "prepare_batch (batch_of ([graph_A, graph_B] @ [graph_C])) [1, 0, 1 :: int] =
          Inr ((af', bf', ps', m'), [1, 0, 1])"
       "ps' = ps @ shift_pairs (length af) (snd (snd graph_C))"
       "m' = m @ replicate (length (fst graph_C)) (int (length [graph_A, graph_B]))"
    by (elim exE conjE)
  from r(1) v1 have e1: "af = [[1, 0], [0, 1], [1, 1]]"
    "ps = [(0, 0), (0, 1), (1, 1), (1, 0), (2, 2)]" "m = [0, 0, 1]"
    by simp_all
  from r(2) v2 have e2: "ps' = [(0, 0), (0, 1), (1, 1), (1, 0), (2, 2), (3, 3), (4, 4), (5, 5)]"
    "m' = [0, 0, 1, 2, 2, 2]"
    by simp_all
  have c1: "([(0, 0), (0, 1), (1, 1), (1, 0), (2, 2), (3, 3), (4, 4), (5, 5)] :: (int \<times> int) list) =
     [(0, 0), (0, 1), (1, 1), (1, 0), (2, 2)] @
       shift_pairs (length ([[1, 0], [0, 1], [1, 1]] :: real list list)) (snd (snd graph_C))"
    using r(3) by (simp only: e1 e2)
  have c2: "([0, 0, 1, 2, 2, 2] :: int list) =
     [0, 0, 1] @ replicate (length (fst graph_C)) (int (length [graph_A, graph_B]))"
    using r(4) by (simp only: e1 e2)
  show ?thesis
    by (intro conjI ne sh shC i64 v1 v2 c1 c2)
qed

section \<open>Neighbour aggregation\<close>

lemma tf_gather_ok:
  assumes "list_all (\<lambda>i. 0 \<le> i \<and> i < int (length params)) indices"
  shows "tf_gather params indices = Inr (map (\<lambda>i. params ! nat i) indices)"
  using assms by (simp add: tf_gather_def)

lemma tf_segment_sum_ok:
  assumes "length data = length segment_ids" and "sorted segment_ids"
    and "list_all (\<lambda>i. 0 \<le> i) segment_ids"
  shows "tf_segment_sum d data segment_ids =
     Inr (map (\<lambda>k. foldl vadd (replicate d 0)
                          (map fst (filter (\<lambda>(row, i). i = int k) (zip data segment_ids))))
            [0..<(if segment_ids = [] then 0 else nat (last segment_ids) + 1)])"
  using assms by (simp add: tf_segment_sum_def)

lemma sorted_le_last:
  fixes xs :: "int list"
  shows "sorted xs \<Longrightarrow> x \<in> set xs \<Longrightarrow> x \<le> last xs"
proof (induction xs)
  case Nil
  then show ?case by simp
next
  case (Cons a xs)
  show ?case
  proof (cases "xs = []")
    case True
    with Cons.prems show ?thesis by simp
  next
    case False
    then have l: "last xs \<in> set xs" by simp
    from Cons.prems consider "x = a" | "x \<in> set xs" by auto
    then show ?thesis
    proof cases
      case 1
      with Cons.prems(1) l False show ?thesis by auto
    next
      case 2
      with Cons.IH Cons.prems(1) False show ?thesis by simp
    qed
  qed
qed

lemma filter_zip_absent:
  "x \<notin> set ys \<Longrightarrow> filter (\<lambda>(row, i). i = x) (zip xs ys) = []"
  by (auto simp: filter_empty_conv dest: set_zip_rightD)

text \<open>
  C9, as amended. On a well-shaped graph with valid indices and a non-decreasing source
  column, \<open>EdgeNetwork.call\<close> returns an aggregated matrix with one row for each node
  index up to the last source index (no row when there is no edge), never more rows
  than nodes; every such row whose node is the source of no edge is the zero vector;
  and when the last node is the source of an edge, as its self-loop guarantees, the
  matrix has one row per node.
\<close>

theorem edge_network_rows:
  assumes bshape: "list_all (\<lambda>row. length row = bond_dim self) bond_features"
    and ashape: "list_all (\<lambda>row. length row = atom_dim self) atom_features"
    and edges: "length bond_features = length pair_indices"
    and loc: "local_indices (atom_features, bond_features, pair_indices)"
    and srt: "sorted (map fst pair_indices)"
  shows "\<exists>agg. EdgeNetwork_call self (atom_features, bond_features, pair_indices) = Inr agg
     \<and> length agg = (if pair_indices = [] then 0 else nat (fst (last pair_indices)) + 1)
     \<and> length agg \<le> length atom_features
     \<and> (\<forall>k < length agg. int k \<notin> fst ` set pair_indices \<longrightarrow>
           agg ! k = replicate (atom_dim self) 0)
     \<and> (int (length atom_features) - 1 \<in> fst ` set pair_indices \<longrightarrow>
           length agg = length atom_features)"
proof -
  define n where "n = length atom_features"
  define ids where "ids = map fst pair_indices"
  define W where "W = map (reshape (atom_dim self))
     (map (\<lambda>row. vadd (vecmat row (kernel self) (atom_dim self * atom_dim self)) (bias self))
        bond_features)"
  define nbrs where "nbrs = map (\<lambda>i. atom_features ! nat i) (map snd pair_indices)"
  define data where "data = map2 matvec W nbrs"
  define num where "num = (if ids = [] then 0 else nat (last ids) + 1)"
  define agg where "agg = map (\<lambda>k. foldl vadd (replicate (atom_dim self) 0)
                          (map fst (filter (\<lambda>(row, i). i = int k) (zip data ids)))) [0..<num]"
  have loc': "\<forall>(s, d) \<in> set pair_indices. 0 \<le> s \<and> s < int n \<and> 0 \<le> d \<and> d < int n"
    using loc by (simp add: local_indices_def list_all_iff n_def)
  have g: "tf_gather atom_features (map snd pair_indices) = Inr nbrs"
    unfolding nbrs_def using loc' by (intro tf_gather_ok) (auto simp: list_all_iff n_def)
  have lenW: "length W = length nbrs"
    by (simp add: W_def nbrs_def edges)
  have rows: "list_all (\<lambda>row. length row = atom_dim self) nbrs"
    using ashape loc' by (auto simp: nbrs_def list_all_iff n_def)
  have lend: "length data = length ids"
    by (simp add: data_def ids_def lenW nbrs_def)
  have nonneg: "list_all (\<lambda>i. 0 \<le> i) ids"
    using loc' by (auto simp: ids_def list_all_iff)
  have seg: "tf_segment_sum (atom_dim self) data ids = Inr agg"
    unfolding agg_def num_def using lend srt nonneg
    by (intro tf_segment_sum_ok) (simp_all add: ids_def)
  have call: "EdgeNetwork_call self (atom_features, bond_features, pair_indices) = Inr agg"
    unfolding EdgeNetwork_call_def prod.case Let_def
    unfolding W_def [symmetric]
    by (simp only: bshape g lenW rows seg [unfolded data_def ids_def] sum.case simp_thms
        if_False)
  have len: "length agg = num" by (simp add: agg_def)
  have num_eq: "num = (if pair_indices = [] then 0 else nat (fst (last pair_indices)) + 1)"
    by (simp add: num_def ids_def last_map)
  have last_lt: "fst (last pair_indices) < int n \<and> 0 \<le> fst (last pair_indices)"
    if "pair_indices \<noteq> []"
  proof -
    from that have "last pair_indices \<in> set pair_indices" by simp
    with loc' show ?thesis by (auto simp: case_prod_unfold)
  qed
  have le: "num \<le> n"
    using last_lt by (auto simp: num_eq)
  have zero: "agg ! k = replicate (atom_dim self) 0"
    if "k < length agg" and "int k \<notin> fst ` set pair_indices" for k
  proof -
    from that(2) have "int k \<notin> set ids" by (simp add: ids_def)
    then have "filter (\<lambda>(row, i). i = int k) (zip data ids) = []"
      by (rule filter_zip_absent)
    with that(1) show ?thesis by (simp add: agg_def)
  qed
  have full: "num = n" if "int n - 1 \<in> fst ` set pair_indices"
  proof -
    from that have ne: "pair_indices \<noteq> []" by auto
    from that have "int n - 1 \<in> set ids" by (simp add: ids_def)
    with srt have "int n - 1 \<le> last ids"
      unfolding ids_def [symmetric] by (intro sorted_le_last) simp_all
    moreover have "last ids = fst (last pair_indices)" using ne by (simp add: ids_def last_map)
    ultimately have "fst (last pair_indices) = int n - 1" using last_lt [OF ne] by linarith
    moreover have "0 < n" using last_lt [OF ne] by linarith
    ultimately have "nat (fst (last pair_indices)) + 1 = n" by simp
    then show ?thesis using ne by (simp add: num_eq)
  qed
  have c2: "length agg = (if pair_indices = [] then 0 else nat (fst (last pair_indices)) + 1)"
    using len num_eq by simp
  have c3: "length agg \<le> length atom_features" using len le by (simp add: n_def)
  have c4: "\<forall>k < length agg. int k \<notin> fst ` set pair_indices \<longrightarrow>
           agg ! k = replicate (atom_dim self) 0"
    using zero by (intro allI impI)
  have c5: "int (length atom_features) - 1 \<in> fst ` set pair_indices \<longrightarrow>
           length agg = length atom_features"
    using full len by (simp add: n_def)
  show ?thesis
    by (intro exI conjI, rule call, rule c2, rule c3, rule c4, rule c5)
qed

theorem edge_network_rows_example:
  "list_all (\<lambda>row. length row = bond_dim sample_net) [[1], [1], [1 :: real]] \<and>
   list_all (\<lambda>row. length row = atom_dim sample_net) [[1], [2], [3 :: real]] \<and>
   length [[1], [1], [1 :: real]] = length ([(0, 0), (0, 1), (2, 2)] :: (int \<times> int) list) \<and>
   local_indices ([[1], [2], [3]], [[1], [1], [1]], [(0, 0), (0, 1), (2, 2)]) \<and>
   sorted (map fst ([(0, 0), (0, 1), (2, 2)] :: (int \<times> int) list)) \<and>
   EdgeNetwork_call sample_net ([[1], [2], [3]], [[1], [1], [1]], [(0, 0), (0, 1), (2, 2)]) =
     Inr [[3], [0], [3]] \<and>
   [[3], [0], [3 :: real]] ! 1 = replicate (atom_dim sample_net) 0 \<and>
   length [[3], [0], [3 :: real]] = length [[1], [2], [3 :: real]]"
proof -
  let ?af = "[[1], [2], [3 :: real]]"
  let ?bf = "[[1], [1], [1 :: real]]"
  let ?ps = "([(0, 0), (0, 1), (2, 2)] :: (int \<times> int) list)"
  have h1: "list_all (\<lambda>row. length row = bond_dim sample_net) ?bf"
    by (simp add: sample_net_def)
  have h2: "list_all (\<lambda>row. length row = atom_dim sample_net) ?af"
    by (simp add: sample_net_def)
  have h3: "length ?bf = length ?ps" by simp
  have h4: "local_indices (?af, ?bf, ?ps)" by (simp add: local_indices_def)
  have h5: "sorted (map fst ?ps)" by simp
  have v: "EdgeNetwork_call sample_net (?af, ?bf, ?ps) = Inr [[3], [0], [3]]"
    by code_simp
  from edge_network_rows [OF h1 h2 h3 h4 h5] obtain agg where
    a: "EdgeNetwork_call sample_net (?af, ?bf, ?ps) = Inr agg"
       "\<forall>k < length agg. int k \<notin> fst ` set ?ps \<longrightarrow> agg ! k = replicate (atom_dim sample_net) 0"
       "int (length ?af) - 1 \<in> fst ` set ?ps \<longrightarrow> length agg = length ?af"
    by blast
  from a(1) v have agg: "agg = [[3], [0], [3]]" by simp
  have k: "1 < length agg" "int 1 \<notin> fst ` set ?ps" by (simp_all add: agg)
  from a(2) [rule_format, OF k] have z: "[[3], [0], [3 :: real]] ! 1 = replicate (atom_dim sample_net) 0"
    by (simp only: agg)
  have "int (length ?af) - 1 \<in> fst ` set ?ps" by simp
  with a(3) have l: "length [[3], [0], [3 :: real]] = length ?af" by (simp only: agg)
  show ?thesis
    by (intro conjI h1 h2 h3 h4 h5 v z l)
qed

text \<open>
  C9 as stated fails when the last node is the source of no edge: with two nodes and
  the single edge \<open>(0, 0)\<close>, the aggregated matrix has one row, and node 1 has none.
\<close>

theorem edge_network_rows_counterexample:
  "EdgeNetwork_call sample_net ([[1], [1]], [[1]], [(0, 0)]) = Inr [[1]]
   \<and> 1 \<notin> fst ` set ([(0, 0)] :: (int \<times> int) list)
   \<and> length [[1 :: real]] \<noteq> length [[1], [1 :: real]]"
  by code_simp

section \<open>Message passing under a relabelling of the nodes\<close>

lemma zip_messages:
  "length bf = length ps \<Longrightarrow>
   zip (map2 matvec (map W bf) (map (\<lambda>i. h ! nat i) (map snd ps))) (map fst ps) =
   map (\<lambda>(b, s, d). (matvec (W b) (h ! nat d), s)) (zip bf ps)"
  by (induction bf ps rule: list_induct2) auto

lemma filter_messages:
  "map fst (filter (\<lambda>(row, i). i = x) (map (\<lambda>(b, s, d). (f b d, s)) zs)) =
   map (\<lambda>(b, s, d). f b d) (filter (\<lambda>(b, s, d). s = x) zs)"
  by (induction zs) auto

lemma EdgeNetwork_call_eq:
  "EdgeNetwork_call self (h, bf, ps) =
     (if edges_ok self h bf ps
      then Inr (map (aggregate self h (zip bf ps)) [0..<num_segments ps])
      else Inl InvalidArgumentError)"
proof (cases "edges_ok self h bf ps")
  case True
  then have b: "list_all (\<lambda>row. length row = bond_dim self) bf"
    and l: "length bf = length ps"
    and r: "list_all (\<lambda>(s, d). 0 \<le> s \<and> 0 \<le> d \<and> d < int (length h)
                     \<and> length (h ! nat d) = atom_dim self) ps"
    and s: "sorted (map fst ps)"
    by (simp_all add: edges_ok_def)
  define W where "W = (\<lambda>b. reshape (atom_dim self)
      (vadd (vecmat b (kernel self) (atom_dim self * atom_dim self)) (bias self)))"
  define nbrs where "nbrs = map (\<lambda>i. h ! nat i) (map snd ps)"
  have g: "tf_gather h (map snd ps) = Inr nbrs"
    using r by (auto simp: tf_gather_def nbrs_def list_all_iff)
  have rows: "list_all (\<lambda>row. length row = atom_dim self) nbrs"
    using r by (auto simp: nbrs_def list_all_iff)
  have lenW: "length (map W bf) = length nbrs" by (simp add: nbrs_def l)
  have nonneg: "list_all (\<lambda>i. 0 \<le> i) (map fst ps)"
    using r by (auto simp: list_all_iff)
  have lend: "length (map2 matvec (map W bf) nbrs) = length (map fst ps)"
    by (simp add: nbrs_def l)
  have rowk: "foldl vadd (replicate (atom_dim self) 0)
          (map fst (filter (\<lambda>(row, i). i = int k)
             (zip (map2 matvec (map W bf) nbrs) (map fst ps)))) =
        aggregate self h (zip bf ps) k" for k
    unfolding nbrs_def zip_messages [OF l] filter_messages aggregate_def edge_message_def W_def
    by (rule refl)
  have seg: "tf_segment_sum (atom_dim self) (map2 matvec (map W bf) nbrs) (map fst ps) =
      Inr (map (aggregate self h (zip bf ps)) [0..<num_segments ps])"
    using lend s nonneg
    by (simp add: tf_segment_sum_def rowk num_segments_def last_map)
  have Weq: "map (reshape (atom_dim self))
      (map (\<lambda>row. vadd (vecmat row (kernel self) (atom_dim self * atom_dim self)) (bias self)) bf)
      = map W bf"
    by (simp add: W_def)
  have "EdgeNetwork_call self (h, bf, ps) =
      Inr (map (aggregate self h (zip bf ps)) [0..<num_segments ps])"
    unfolding EdgeNetwork_call_def prod.case Let_def Weq
    by (simp only: b g lenW rows seg sum.case simp_thms if_False)
  with True show ?thesis by simp
next
  case False
  let ?E = "Inl InvalidArgumentError :: error + real list list"
  show ?thesis
  proof (cases "list_all (\<lambda>row. length row = bond_dim self) bf")
    case b: False
    then show ?thesis using False by (simp add: EdgeNetwork_call_def)
  next
    case b: True
    show ?thesis
    proof (cases "list_all (\<lambda>i. 0 \<le> i \<and> i < int (length h)) (map snd ps)")
      case g: False
      then have "tf_gather h (map snd ps) = ?E" by (simp add: tf_gather_def)
      then show ?thesis using False b by (simp add: EdgeNetwork_call_def Let_def)
    next
      case g: True
      define nbrs where "nbrs = map (\<lambda>i. h ! nat i) (map snd ps)"
      have gather: "tf_gather h (map snd ps) = Inr nbrs"
        using g by (simp add: tf_gather_def nbrs_def)
      show ?thesis
      proof (cases "length bf = length ps \<and> list_all (\<lambda>row. length row = atom_dim self) nbrs")
        case s: False
        then show ?thesis
          using False b gather by (auto simp: EdgeNetwork_call_def Let_def nbrs_def)
      next
        case s: True
        have "\<not> (sorted (map fst ps) \<and> list_all (\<lambda>i. 0 \<le> i) (map fst ps))"
        proof
          assume a: "sorted (map fst ps) \<and> list_all (\<lambda>i. 0 \<le> i) (map fst ps)"
          have "list_all (\<lambda>(s, d). 0 \<le> s \<and> 0 \<le> d \<and> d < int (length h)
                     \<and> length (h ! nat d) = atom_dim self) ps"
            using a g s by (auto simp: list_all_iff nbrs_def)
          with a b s have "edges_ok self h bf ps" by (simp add: edges_ok_def)
          with False show False by contradiction
        qed
        then have "tf_segment_sum (atom_dim self) data (map fst ps) = ?E" for data
          by (auto simp: tf_segment_sum_def)
        then show ?thesis
          using False b gather s by (simp add: EdgeNetwork_call_def Let_def)
      qed
    qed
  qed
qed

lemma vadd_commute: "vadd u v = vadd v u"
proof -
  have "map2 (+) u v = map2 (+) v (u :: real list)"
    by (induction u v rule: list_induct2') (simp_all add: add.commute)
  then show ?thesis by (simp add: vadd_def)
qed

lemma vadd_assoc: "vadd (vadd u v) w = vadd u (vadd v w)"
proof -
  have "map2 (+) (map2 (+) u v) w = map2 (+) u (map2 (+) v (w :: real list))"
  proof (induction u arbitrary: v w)
    case Nil
    show ?case by simp
  next
    case (Cons a u)
    show ?case by (cases v; cases w) (simp_all add: Cons.IH add.assoc)
  qed
  then show ?thesis by (simp add: vadd_def)
qed

lemma foldl_vadd_mset:
  assumes "mset xs = mset ys"
  shows "foldl vadd z xs = foldl vadd z ys"
proof -
  have "(\<lambda>a. vadd a x) \<circ> (\<lambda>a. vadd a y) = (\<lambda>a. vadd a y) \<circ> (\<lambda>a. vadd a x)" for x y
  proof
    fix a
    have "vadd (vadd a y) x = vadd a (vadd y x)" by (rule vadd_assoc)
    also have "\<dots> = vadd a (vadd x y)" by (simp only: vadd_commute [of y x])
    also have "\<dots> = vadd (vadd a x) y" by (rule vadd_assoc [symmetric])
    finally show "((\<lambda>a. vadd a x) \<circ> (\<lambda>a. vadd a y)) a = ((\<lambda>a. vadd a y) \<circ> (\<lambda>a. vadd a x)) a"
      by simp
  qed
  then have "fold (\<lambda>x a. vadd a x) xs = fold (\<lambda>x a. vadd a x) ys"
    using assms by (intro fold_multiset_equiv) auto
  then show ?thesis by (simp add: foldl_conv_fold)
qed

text \<open>Relabelled messages: the message of an edge does not change when the nodes are relabelled.\<close>

lemma aggregate_relabel:
  assumes rel: "\<forall>j < n. h' ! p j = h ! j"
    and inj: "inj_on p {..<n}"
    and rng: "\<forall>(b, s, d) \<in> set zs. 0 \<le> s \<and> nat s < n \<and> 0 \<le> d \<and> nat d < n"
    and ms: "mset zs' = image_mset (\<lambda>(b, e). (b, relabel p e)) (mset zs)"
    and i: "i < n"
  shows "aggregate self h' zs' (p i) = aggregate self h zs i"
proof -
  let ?R = "\<lambda>(b, e). (b, relabel p e)"
  let ?F' = "\<lambda>(b, s, d). edge_message self b (h' ! nat d)"
  let ?F = "\<lambda>(b, s, d). edge_message self b (h ! nat d)"
  let ?Q' = "\<lambda>(b, s, d). s = int (p i)"
  let ?Q = "\<lambda>(b, s, d). s = int i"
  have el: "0 \<le> s \<and> nat s < n \<and> 0 \<le> d \<and> nat d < n" if "(b, s, d) \<in># mset zs" for b s d
    using rng that by auto
  have q: "?Q' (?R x) \<longleftrightarrow> ?Q x" if "x \<in># mset zs" for x
  proof -
    obtain b s d where x: "x = (b, s, d)" by (cases x)
    from el [of b s d] that x have r: "0 \<le> s" "nat s < n" by simp_all
    have "p (nat s) = p i \<longleftrightarrow> nat s = i"
      using inj r(2) i by (auto simp: inj_on_def)
    with r(1) show ?thesis by (auto simp: x relabel_def)
  qed
  have f: "?F' (?R x) = ?F x" if "x \<in># mset zs" for x
  proof -
    obtain b s d where x: "x = (b, s, d)" by (cases x)
    from el [of b s d] that x have r: "nat d < n" by simp
    with rel show ?thesis by (simp add: x relabel_def)
  qed
  have "mset (map ?F' (filter ?Q' zs')) = image_mset ?F' (filter_mset ?Q' (mset zs'))"
    by simp
  also have "\<dots> = image_mset ?F' (filter_mset ?Q' (image_mset ?R (mset zs)))"
    by (simp only: ms)
  also have "\<dots> = image_mset ?F' (image_mset ?R (filter_mset (\<lambda>x. ?Q' (?R x)) (mset zs)))"
    by (simp only: filter_mset_image_mset)
  also have "filter_mset (\<lambda>x. ?Q' (?R x)) (mset zs) = filter_mset ?Q (mset zs)"
    by (rule filter_mset_cong [OF refl]) (rule q)
  also have "image_mset ?F' (image_mset ?R (filter_mset ?Q (mset zs))) =
             image_mset (\<lambda>x. ?F' (?R x)) (filter_mset ?Q (mset zs))"
    by (simp add: image_mset.compositionality comp_def)
  also have "\<dots> = image_mset ?F (filter_mset ?Q (mset zs))"
    by (rule image_mset_cong) (simp add: f)
  also have "\<dots> = mset (map ?F (filter ?Q zs))"
    by simp
  finally have "mset (map ?F' (filter ?Q' zs')) = mset (map ?F (filter ?Q zs))" .
  then show ?thesis
    unfolding aggregate_def by (rule foldl_vadd_mset)
qed

lemma map_snd_relabelled:
  "length bf = length ps \<Longrightarrow> map snd (map (\<lambda>(b, e). (b, f e)) (zip bf ps)) = map f ps"
  by (induction bf ps rule: list_induct2) auto

lemma map_fst_relabelled:
  "length bf = length ps \<Longrightarrow> map fst (map (\<lambda>(b, e). (b, f e)) (zip bf ps)) = bf"
  by (induction bf ps rule: list_induct2) auto

lemma num_segments_full:
  assumes srt: "sorted (map fst ps)" and set: "fst ` set ps = int ` {..<n}"
  shows "num_segments ps = n"
proof (cases "n = 0")
  case True
  with set have "ps = []" by simp
  with True show ?thesis by (simp add: num_segments_def)
next
  case False
  with set have ne: "ps \<noteq> []" by auto
  then have "map fst ps \<noteq> []" by simp
  then have "last (map fst ps) \<in> set (map fst ps)" by (rule last_in_set)
  with set have "last (map fst ps) \<in> int ` {..<n}" by simp
  then have up: "last (map fst ps) < int n" by auto
  have "n - 1 \<in> {..<n}" using False by simp
  then have "int (n - 1) \<in> int ` {..<n}" by (rule imageI)
  then have "int (n - 1) \<in> set (map fst ps)" using set by simp
  with srt have "int (n - 1) \<le> last (map fst ps)" by (rule sorted_le_last)
  with up have "last (map fst ps) = int n - 1" using False by linarith
  then have "fst (last ps) = int n - 1" using ne by (simp add: last_map)
  then show ?thesis using ne False by (simp add: num_segments_def)
qed

lemma sources_in_range:
  assumes srt: "sorted (map fst ps)" and num: "num_segments ps = n"
    and nonneg: "\<forall>(s, d) \<in> set ps. 0 \<le> s"
  shows "\<forall>(s, d) \<in> set ps. nat s < n"
proof (clarify)
  fix s d assume m: "(s, d) \<in> set ps"
  then have ne: "ps \<noteq> []" by auto
  from m have "s \<in> set (map fst ps)" by force
  with srt have "s \<le> last (map fst ps)" by (rule sorted_le_last)
  then have "s \<le> fst (last ps)" using ne by (simp add: last_map)
  moreover from num ne have "nat (fst (last ps)) + 1 = n" by (simp add: num_segments_def)
  ultimately show "nat s < n" by linarith
qed

lemma edge_network_equivariant:
  assumes call: "EdgeNetwork_call self (h, bf, ps) = Inr agg"
    and len: "length agg = length h"
    and hlen: "length h' = length h"
    and rel: "\<forall>j < length h. h' ! p j = h ! j"
    and bij: "bij_betw p {..<length h} {..<length h}"
    and l': "length bf' = length ps'"
    and ms: "mset (zip bf' ps') = mset (zip bf (map (relabel p) ps))"
    and srt': "sorted (map fst ps')"
    and cover: "int ` {..<length h} \<subseteq> fst ` set ps"
  shows "\<exists>agg'. EdgeNetwork_call self (h', bf', ps') = Inr agg' \<and> length agg' = length h
     \<and> (\<forall>i < length h. agg' ! p i = agg ! i)"
proof -
  define n where "n = length h"
  let ?R = "\<lambda>(b, e). (b, relabel p e)"
  from call have ok: "edges_ok self h bf ps"
    and agg: "agg = map (aggregate self h (zip bf ps)) [0..<num_segments ps]"
    by (simp_all add: EdgeNetwork_call_eq split: if_splits)
  from ok have b: "list_all (\<lambda>row. length row = bond_dim self) bf"
    and l: "length bf = length ps"
    and r: "list_all (\<lambda>(s, d). 0 \<le> s \<and> 0 \<le> d \<and> d < int (length h)
                     \<and> length (h ! nat d) = atom_dim self) ps"
    and srt: "sorted (map fst ps)"
    by (simp_all add: edges_ok_def)
  have num: "num_segments ps = n" using len agg by (simp add: n_def)
  have r': "\<forall>(s, d) \<in> set ps. 0 \<le> s \<and> 0 \<le> d \<and> nat d < n \<and> length (h ! nat d) = atom_dim self"
    using r by (auto simp: list_all_iff n_def)
  have src: "\<forall>(s, d) \<in> set ps. nat s < n"
    using srt num r' by (intro sources_in_range) auto
  have pn: "p j < n" if "j < n" for j
    using bij that by (auto simp: bij_betw_def n_def)
  have inj: "inj_on p {..<n}" using bij by (simp add: bij_betw_def n_def)
  have img: "p ` {..<n} = {..<n}" using bij by (simp add: bij_betw_def n_def)
  \<comment> \<open>the edges of the relabelled graph, as multisets\<close>
  have zs: "mset (zip bf' ps') = image_mset ?R (mset (zip bf ps))"
    by (simp add: ms zip_map2 case_prod_unfold)
  have "mset (map snd (zip bf' ps')) = mset (map snd (map ?R (zip bf ps)))"
    using zs by (simp only: mset_map)
  then have mps: "mset ps' = mset (map (relabel p) ps)"
    by (simp only: map_snd_relabelled [OF l] map_snd_zip [OF l'])
  have "mset (map fst (zip bf' ps')) = mset (map fst (map ?R (zip bf ps)))"
    using zs by (simp only: mset_map)
  then have mbf: "mset bf' = mset bf"
    by (simp only: map_fst_relabelled [OF l] map_fst_zip [OF l'])
  have sps: "set ps' = relabel p ` set ps"
    using mps by (metis set_map set_mset_mset)
  have sbf: "set bf' = set bf"
    using mbf by (metis set_mset_mset)
  \<comment> \<open>the relabelled call passes every check\<close>
  have r1: "list_all (\<lambda>row. length row = bond_dim self) bf'"
    using b by (simp add: list_all_iff sbf)
  have r2: "list_all (\<lambda>(s, d). 0 \<le> s \<and> 0 \<le> d \<and> d < int (length h')
                     \<and> length (h' ! nat d) = atom_dim self) ps'"
  proof -
    have "0 \<le> s' \<and> 0 \<le> d' \<and> d' < int (length h') \<and> length (h' ! nat d') = atom_dim self"
      if "(s', d') \<in> set ps'" for s' d'
    proof -
      from that sps obtain s d where sd: "(s, d) \<in> set ps" "(s', d') = relabel p (s, d)" by auto
      from r' sd(1) have d: "nat d < n" "length (h ! nat d) = atom_dim self" by auto
      from sd(2) have e: "s' = int (p (nat s))" "d' = int (p (nat d))" by (simp_all add: relabel_def)
      from rel d(1) have "h' ! p (nat d) = h ! nat d" by (simp add: n_def)
      with d pn [OF d(1)] show ?thesis by (simp add: e hlen n_def)
    qed
    then show ?thesis by (auto simp: list_all_iff)
  qed
  have ok': "edges_ok self h' bf' ps'"
    using r1 l' r2 srt' by (simp add: edges_ok_def)
  \<comment> \<open>every node is a source, before and after\<close>
  have "fst ` set ps = int ` {..<n}"
  proof
    show "fst ` set ps \<subseteq> int ` {..<n}"
    proof
      fix s assume "s \<in> fst ` set ps"
      then obtain d where m: "(s, d) \<in> set ps" by auto
      with r' src have "0 \<le> s" "nat s < n" by auto
      then have "s = int (nat s)" "nat s \<in> {..<n}" by simp_all
      then show "s \<in> int ` {..<n}" by (metis imageI)
    qed
    show "int ` {..<n} \<subseteq> fst ` set ps" using cover by (simp add: n_def)
  qed
  then have "fst ` set ps' = (\<lambda>s. int (p (nat s))) ` int ` {..<n}"
    by (simp add: sps image_image relabel_def case_prod_unfold flip: image_image [of "\<lambda>s. int (p (nat s))" fst])
  also have "\<dots> = int ` p ` {..<n}" by (simp add: image_image)
  also have "\<dots> = int ` {..<n}" by (simp only: img)
  finally have "fst ` set ps' = int ` {..<n}" .
  with srt' have num': "num_segments ps' = n" by (rule num_segments_full)
  have call': "EdgeNetwork_call self (h', bf', ps') =
      Inr (map (aggregate self h' (zip bf' ps')) [0..<n])"
    using ok' by (simp add: EdgeNetwork_call_eq num')
  have rng: "\<forall>(b, s, d) \<in> set (zip bf ps). 0 \<le> s \<and> nat s < n \<and> 0 \<le> d \<and> nat d < n"
  proof -
    have "0 \<le> s \<and> nat s < n \<and> 0 \<le> d \<and> nat d < n" if "(b, s, d) \<in> set (zip bf ps)" for b s d
    proof -
      from that have "(s, d) \<in> set ps" by (rule set_zip_rightD)
      with r' src show ?thesis by auto
    qed
    then show ?thesis by auto
  qed
  have row: "map (aggregate self h' (zip bf' ps')) [0..<n] ! p i = agg ! i" if "i < n" for i
  proof -
    have "aggregate self h' (zip bf' ps') (p i) = aggregate self h (zip bf ps) i"
      using rel inj rng zs that by (intro aggregate_relabel [where n = n]) (simp_all add: n_def)
    with pn [OF that] that show ?thesis by (simp add: agg num)
  qed
  show ?thesis
    using call' row by (auto simp: n_def)
qed

lemma message_passing_loop_equivariant:
  assumes bij: "bij_betw p {..<n} {..<n}"
    and l': "length bf' = length ps'"
    and ms: "mset (zip bf' ps') = mset (zip bf (map (relabel p) ps))"
    and srt': "sorted (map fst ps')"
    and cover: "int ` {..<n} \<subseteq> fst ` set ps"
  shows "message_passing_loop self k bf ps h = Inr H \<Longrightarrow> length h = n \<Longrightarrow> length h' = n \<Longrightarrow>
     (\<forall>j < n. h' ! p j = h ! j) \<Longrightarrow>
     \<exists>H'. message_passing_loop self k bf' ps' h' = Inr H' \<and> length H = n \<and> length H' = n
        \<and> (\<forall>j < n. H' ! p j = H ! j)"
proof (induction k arbitrary: h h')
  case 0
  then show ?case by simp
next
  case (Suc k)
  from Suc.prems(1) obtain agg where
    call: "EdgeNetwork_call (message_step self) (h, bf, ps) = Inr agg"
    by (auto split: sum.splits)
  from Suc.prems(1) call obtain h1 where
    gru: "GRUCell_call (update_step self) agg h = Inr h1"
    and rest: "message_passing_loop self k bf ps h1 = Inr H"
    by (auto split: sum.splits)
  from gru have len: "length agg = length h" and h1: "h1 = map2 (update_step self) agg h"
    by (auto simp: GRUCell_call_def split: if_splits)
  have pn: "p j < n" if "j < n" for j
    using bij that by (auto simp: bij_betw_def)
  from edge_network_equivariant [OF call len, of h' p bf' ps']
    Suc.prems(2,3,4) bij l' ms srt' cover
  obtain agg' where
    call': "EdgeNetwork_call (message_step self) (h', bf', ps') = Inr agg'"
    and len': "length agg' = n"
    and row: "\<forall>i < n. agg' ! p i = agg ! i"
    by auto
  define h1' where "h1' = map2 (update_step self) agg' h'"
  have gru': "GRUCell_call (update_step self) agg' h' = Inr h1'"
    using len' Suc.prems(3) by (simp add: GRUCell_call_def h1'_def)
  have l1: "length h1 = n" using len Suc.prems(2) by (simp add: h1)
  have l1': "length h1' = n" using len' Suc.prems(3) by (simp add: h1'_def)
  have r1: "\<forall>j < n. h1' ! p j = h1 ! j"
  proof (intro allI impI)
    fix j assume j: "j < n"
    from pn [OF j] len' Suc.prems(3) have "h1' ! p j = update_step self (agg' ! p j) (h' ! p j)"
      by (simp add: h1'_def)
    also have "\<dots> = update_step self (agg ! j) (h ! j)"
      using row Suc.prems(4) j by simp
    also have "\<dots> = h1 ! j"
      using j len Suc.prems(2) by (simp add: h1)
    finally show "h1' ! p j = h1 ! j" .
  qed
  from Suc.IH [OF rest l1 l1' r1] obtain H' where
    "message_passing_loop self k bf' ps' h1' = Inr H'" "length H = n" "length H' = n"
    "\<forall>j < n. H' ! p j = H ! j"
    by blast
  then show ?case
    using call' gru' by simp
qed

text \<open>
  C5, as amended. Take a graph in which every node is the source of an edge and on
  which message passing returns \<open>H\<close>, and a permutation \<open>p\<close> of its node indices.
  Reorder the node features by \<open>p\<close>, rewrite every edge \<open>(s, d)\<close> to \<open>(p s, p d)\<close>, and
  reorder the edges, each with its features, so that the source column is
  non-decreasing. Then message passing on the relabelled graph returns the rows of \<open>H\<close>
  reordered by \<open>p\<close>. The arithmetic is over the reals.
\<close>

theorem message_passing_equivariant:
  assumes bij: "bij_betw p {..<length atom_features} {..<length atom_features}"
    and len: "length atom_features' = length atom_features"
    and perm: "atom_features = map (\<lambda>i. atom_features' ! p i) [0..<length atom_features]"
    and l': "length bond_features' = length pair_indices'"
    and ms: "mset (zip bond_features' pair_indices') =
             mset (zip bond_features (map (relabel p) pair_indices))"
    and srt': "sorted (map fst pair_indices')"
    and cover: "int ` {..<length atom_features} \<subseteq> fst ` set pair_indices"
    and run: "MessagePassing_call self (atom_features, bond_features, pair_indices) = Inr H"
  shows "\<exists>H'. MessagePassing_call self (atom_features', bond_features', pair_indices') = Inr H'
     \<and> length H' = length H
     \<and> H = map (\<lambda>i. H' ! p i) [0..<length H]"
proof -
  define n where "n = length atom_features"
  define pad where "pad = (\<lambda>row :: real list. row @ replicate (pad_length self) 0)"
  have pn: "p j < n" if "j < n" for j
    using bij that by (auto simp: bij_betw_def n_def)
  have af: "atom_features' ! p j = atom_features ! j" if "j < n" for j
  proof -
    from that have "map (\<lambda>i. atom_features' ! p i) [0..<length atom_features] ! j =
        atom_features' ! p j"
      by (simp add: n_def)
    then show ?thesis by (simp only: perm [symmetric])
  qed
  have rel: "\<forall>j < n. map pad atom_features' ! p j = map pad atom_features ! j"
    using af pn len by (simp add: n_def)
  from run have loop: "message_passing_loop self (steps self) bond_features pair_indices
      (map pad atom_features) = Inr H"
    by (simp add: MessagePassing_call_def pad_def)
  from message_passing_loop_equivariant [OF bij [folded n_def] l' ms srt' cover [folded n_def] loop _ _ rel]
  obtain H' where
    H': "message_passing_loop self (steps self) bond_features' pair_indices'
      (map pad atom_features') = Inr H'"
    "length H = n" "length H' = n" "\<forall>j < n. H' ! p j = H ! j"
    using len by (auto simp: n_def)
  have "MessagePassing_call self (atom_features', bond_features', pair_indices') = Inr H'"
    using H'(1) by (simp add: MessagePassing_call_def pad_def)
  moreover have "length H' = length H" using H'(2,3) by simp
  moreover have "H = map (\<lambda>i. H' ! p i) [0..<length H]"
    using H'(2,4) by (intro nth_equalityI) simp_all
  ultimately show ?thesis by blast
qed

theorem message_passing_equivariant_example:
  "bij_betw swap01 {..<length [[1], [2 :: real]]} {..<length [[1], [2 :: real]]} \<and>
   length [[2], [1 :: real]] = length [[1], [2 :: real]] \<and>
   [[1], [2 :: real]] = map (\<lambda>i. [[2], [1]] ! swap01 i) [0..<length [[1], [2 :: real]]] \<and>
   length [[1], [1], [2 :: real]] = length ([(0, 0), (1, 1), (1, 0)] :: (int \<times> int) list) \<and>
   mset (zip [[1], [1], [2 :: real]] [(0, 0), (1, 1), (1, 0)]) =
     mset (zip [[1], [2], [1]] (map (relabel swap01) [(0, 0), (0, 1), (1, 1)])) \<and>
   sorted (map fst ([(0, 0), (1, 1), (1, 0)] :: (int \<times> int) list)) \<and>
   int ` {..<length [[1], [2 :: real]]} \<subseteq>
     fst ` set ([(0, 0), (0, 1), (1, 1)] :: (int \<times> int) list) \<and>
   MessagePassing_call sample_mp ([[1], [2]], [[1], [2], [1]], [(0, 0), (0, 1), (1, 1)]) =
     Inr [[56], [16]] \<and>
   MessagePassing_call sample_mp ([[2], [1]], [[1], [1], [2]], [(0, 0), (1, 1), (1, 0)]) =
     Inr [[16], [56]] \<and>
   [[56], [16 :: real]] = map (\<lambda>i. [[16], [56]] ! swap01 i) [0..<length [[56], [16 :: real]]]"
proof -
  let ?af = "[[1], [2 :: real]]" and ?af' = "[[2], [1 :: real]]"
  let ?bf = "[[1], [2], [1 :: real]]" and ?bf' = "[[1], [1], [2 :: real]]"
  let ?ps = "[(0, 0), (0, 1), (1, 1)] :: (int \<times> int) list"
  let ?ps' = "[(0, 0), (1, 1), (1, 0)] :: (int \<times> int) list"
  have two: "{..<length ?af} = {0, 1}" by auto
  have h1: "bij_betw swap01 {..<length ?af} {..<length ?af}"
    unfolding two by (auto simp: bij_betw_def swap01_def)
  have h2: "length ?af' = length ?af" by simp
  have h3: "?af = map (\<lambda>i. ?af' ! swap01 i) [0..<length ?af]"
    by (simp add: swap01_def upt_rec)
  have h4: "length ?bf' = length ?ps'" by simp
  have h5: "mset (zip ?bf' ?ps') = mset (zip ?bf (map (relabel swap01) ?ps))"
    by (simp add: relabel_def swap01_def)
  have h6: "sorted (map fst ?ps')" by simp
  have h7: "int ` {..<length ?af} \<subseteq> fst ` set ?ps"
    unfolding two by simp
  have h8: "MessagePassing_call sample_mp (?af, ?bf, ?ps) = Inr [[56], [16]]"
    by code_simp
  have v: "MessagePassing_call sample_mp (?af', ?bf', ?ps') = Inr [[16], [56]]"
    by code_simp
  from message_passing_equivariant [OF h1 h2 h3 h4 h5 h6 h7 h8] obtain H' where
    H': "MessagePassing_call sample_mp (?af', ?bf', ?ps') = Inr H'"
      "[[56], [16 :: real]] = map (\<lambda>i. H' ! swap01 i) [0..<length [[56], [16 :: real]]]"
    by (elim exE conjE)
  from H'(1) v have "H' = [[16], [56]]" by simp
  with H'(2) have c: "[[56], [16 :: real]] =
      map (\<lambda>i. [[16], [56]] ! swap01 i) [0..<length [[56], [16 :: real]]]"
    by simp
  show ?thesis
    by (intro conjI h1 h2 h3 h4 h5 h6 h7 h8 v c)
qed

text \<open>
  C5 as stated fails: rewriting the edges in place leaves the source column unsorted,
  and \<open>segment_sum\<close> rejects it. On two nodes exchanged by \<open>swap01\<close> the original run
  returns and the relabelled run raises.
\<close>

theorem message_passing_equivariant_counterexample:
  "MessagePassing_call sample_mp ([[1], [2]], [[1], [2], [1]], [(0, 0), (0, 1), (1, 1)]) =
     Inr [[56], [16]]
   \<and> map (\<lambda>i. [[1], [2 :: real]] ! swap01 i) [0, 1] = [[2], [1]]
   \<and> map (relabel swap01) [(0, 0), (0, 1), (1, 1)] = [(1, 1), (1, 0), (0, 0)]
   \<and> MessagePassing_call sample_mp ([[2], [1]], [[1], [2], [1]], [(1, 1), (1, 0), (0, 0)]) =
     Inl InvalidArgumentError"
  by code_simp

end
